theory Spec2Isabelle
  imports Complex_Main "HOL-Library.Sublist" "HOL-Library.Word"
begin

chapter \<open>OpenClaw Voice: the per-connection turn pipeline\<close>

text \<open>
  A shallow embedding of \<^verbatim>\<open>src/server/main.py\<close> (the resampler and the websocket
  endpoint's message loop) and of the realtime session of \<^verbatim>\<open>src/server/aliyun_stt.py\<close>.

  Conventions of the model.
  \<^item> A Python \<^verbatim>\<open>str\<close> is a list of code points (\<open>pystr\<close>); \<open>str\<close> turns an ASCII
    literal into one.
  \<^item> The floating point computations of the source (the mean amplitude of the audio,
    the arithmetic of the resampler) are not computed by the model: their results are
    fields of the record \<open>world\<close>, so every theorem holds whatever the machine
    arithmetic returns.
  \<^item> PCM16 audio is a list of bytes (\<^typ>\<open>8 word\<close>), samples little-endian; a float32
    audio array is a list of \<^typ>\<open>real\<close> values.
  \<^item> An exception is a value of the type \<open>error\<close>: a function that can raise returns
    a sum or an \<open>error option\<close> beside what it did before raising.
  \<^item> The collaborators whose modules are not part of the sources (\<^verbatim>\<open>vad\<close>,
    \<^verbatim>\<open>text_utils\<close>, \<^verbatim>\<open>tts\<close>) and the providers behind the network are fields of
    the record \<open>world\<close> as well: one value of it stands for everything the outside
    does while one client message is handled.
  \<^item> What the server does is observed as a list of \<open>effect\<close>s in program order: the
    JSON events sent to the client and the calls made to the collaborators.
\<close>

section \<open>Text: whitespace, \<^verbatim>\<open>strip\<close>, \<^verbatim>\<open>find\<close>\<close>

type_synonym pystr = "int list"

definition str :: "string \<Rightarrow> pystr" where
  "str s = map of_char s"

text \<open>
  The code points for which Python's \<^verbatim>\<open>str.isspace\<close> holds, which are the ones
  \<^verbatim>\<open>str.strip\<close> removes: the ASCII controls 9 to 13 and 28 to 31, the space, U+0085,
  U+00A0, U+1680, U+2000 to U+200A, U+2028, U+2029, U+202F, U+205F and U+3000.
\<close>

definition isspace :: "int \<Rightarrow> bool" where
  "isspace c =
     (c \<in> {9, 10, 11, 12, 13, 28, 29, 30, 31, 32, 133, 160, 5760} \<or>
      (8192 \<le> c \<and> c \<le> 8202) \<or>
      c \<in> {8232, 8233, 8239, 8287, 12288})"

text \<open>\<^verbatim>\<open>s.strip()\<close>: leading and trailing whitespace removed.\<close>

definition strip :: "pystr \<Rightarrow> pystr" where
  "strip s = rev (dropWhile isspace (rev (dropWhile isspace s)))"

text \<open>\<^verbatim>\<open>s.find(sep)\<close>: the lowest index where \<open>sep\<close> occurs, or \<open>-1\<close>.\<close>

fun py_find :: "pystr \<Rightarrow> pystr \<Rightarrow> int" where
  "py_find [] sep = (if sep = [] then 0 else - 1)"
| "py_find (c # cs) sep =
     (if prefix sep (c # cs) then 0
      else (let r = py_find cs sep in if r = - 1 then - 1 else r + 1))"

text \<open>\<^verbatim>\<open>sep in s\<close> on strings.\<close>

definition contains :: "pystr \<Rightarrow> pystr \<Rightarrow> bool" where
  "contains s sep = (py_find s sep \<noteq> - 1)"

section \<open>Sentence boundaries (main.py, lines 415 to 425)\<close>

text \<open>The candidate separators, in the order of the source's list: \<open>.\<close>, \<open>!\<close> and
  \<open>?\<close> (46, 33, 63) before a space (32), then each before a newline (10).\<close>

definition seps :: "pystr list" where
  "seps = [[46, 32], [33, 32], [63, 32], [46, 10], [33, 10], [63, 10]]"

text \<open>
  One round of the \<^verbatim>\<open>for sep in [...]\<close> loop. The source compares the start index of
  the next separator with \<open>earliest_idx\<close>, which after the first hit is the END of the
  earliest separator so far (\<^verbatim>\<open>earliest_idx = idx + len(sep)\<close>); the model keeps that.
\<close>

definition earliest_step :: "pystr \<Rightarrow> int \<Rightarrow> pystr \<Rightarrow> int" where
  "earliest_step sentence_buffer earliest_idx sep =
     (let idx = py_find sentence_buffer sep
      in if idx \<noteq> - 1 \<and> idx < earliest_idx then idx + int (length sep) else earliest_idx)"

definition earliest_boundary :: "pystr \<Rightarrow> int" where
  "earliest_boundary sentence_buffer =
     foldl (earliest_step sentence_buffer) (int (length sentence_buffer)) seps"

text \<open>
  The test of the \<^verbatim>\<open>while any(sep in sentence_buffer ...)\<close> loop and the pure part of
  its body: \<open>Some (sentence, rest)\<close> when the body cuts a sentence off the buffer,
  \<open>None\<close> when the loop ends (no separator, or the \<^verbatim>\<open>break\<close> taken when the earliest
  separator ends the buffer).
\<close>

definition next_sentence :: "pystr \<Rightarrow> (pystr \<times> pystr) option" where
  "next_sentence sentence_buffer =
     (if list_ex (contains sentence_buffer) seps then
        (let earliest_idx = earliest_boundary sentence_buffer
         in if earliest_idx < int (length sentence_buffer)
            then Some (strip (take (nat earliest_idx) sentence_buffer),
                       drop (nat earliest_idx) sentence_buffer)
            else None)
      else None)"

text \<open>The loop shortens the buffer each time it cuts: this is why it ends.\<close>

lemma py_find_ge: "- 1 \<le> py_find s sep"
  by (induction s) (auto simp: Let_def)

lemma earliest_step_pos:
  "sep \<noteq> [] \<Longrightarrow> e = int n \<or> 1 \<le> e \<Longrightarrow>
     earliest_step buf e sep = int n \<or> 1 \<le> earliest_step buf e sep"
  using py_find_ge [of buf sep] by (cases sep) (auto simp: earliest_step_def Let_def)

lemma earliest_fold_pos:
  "[] \<notin> set xs \<Longrightarrow> e = int n \<or> 1 \<le> e \<Longrightarrow>
     foldl (earliest_step buf) e xs = int n \<or> 1 \<le> foldl (earliest_step buf) e xs"
proof (induction xs arbitrary: e)
  case Nil
  then show ?case by simp
next
  case (Cons x xs)
  from Cons.prems have x: "x \<noteq> []" and xs: "[] \<notin> set xs" by auto
  have "earliest_step buf e x = int n \<or> 1 \<le> earliest_step buf e x"
    using x Cons.prems(2) by (rule earliest_step_pos)
  from Cons.IH [OF xs this] show ?case by simp
qed

lemma next_sentence_shorter:
  assumes "next_sentence buf = Some (s, rest)"
  shows "length rest < length buf"
proof -
  from assms have lt: "earliest_boundary buf < int (length buf)"
    and r: "rest = drop (nat (earliest_boundary buf)) buf"
    by (auto simp: next_sentence_def Let_def split: if_splits)
  have "[] \<notin> set seps" by (simp add: seps_def)
  then have "earliest_boundary buf = int (length buf) \<or> 1 \<le> earliest_boundary buf"
    unfolding earliest_boundary_def by (rule earliest_fold_pos) simp
  with lt r show ?thesis by auto
qed

text \<open>
  The segmentation alone: the loop of lines 415 to 445 returning the sentences it hands
  on (the branch \<^verbatim>\<open>if sentence:\<close> drops an empty one) and the buffer it leaves.
\<close>

function extract_sentences :: "pystr \<Rightarrow> pystr list \<times> pystr" where
  "extract_sentences sentence_buffer =
     (case next_sentence sentence_buffer of
        None \<Rightarrow> ([], sentence_buffer)
      | Some (sentence, rest) \<Rightarrow>
          (let (ss, r) = extract_sentences rest
           in ((if sentence \<noteq> [] then [sentence] else []) @ ss, r)))"
  by pat_completeness auto
termination
  by (relation "measure length") (auto dest: next_sentence_shorter)

declare extract_sentences.simps [simp del]

text \<open>
  The stream of chunks: each chunk is appended to the buffer and the loop runs
  (\<^verbatim>\<open>async for chunk in backend.chat_stream(...)\<close>); after the stream the remainder, if
  it is not blank, is one more sentence (lines 447 to 449).
\<close>

fun feed :: "pystr \<Rightarrow> pystr list \<Rightarrow> pystr list \<times> pystr" where
  "feed sentence_buffer [] = ([], sentence_buffer)"
| "feed sentence_buffer (chunk # chunks) =
     (let (ss, r) = extract_sentences (sentence_buffer @ chunk);
          (ss', r') = feed r chunks
      in (ss @ ss', r'))"

definition flush :: "pystr \<Rightarrow> pystr list" where
  "flush sentence_buffer =
     (if strip sentence_buffer \<noteq> [] then [strip sentence_buffer] else [])"

definition segment :: "pystr list \<Rightarrow> pystr list \<times> pystr list" where
  "segment chunks = (let (ss, r) = feed [] chunks in (ss, flush r))"

text \<open>
  The segmenter in the specification's words (section 4.2): a terminator is \<open>.\<close>,
  \<open>!\<close> or \<open>?\<close> followed by whitespace or a newline; the earliest terminator of the
  whole remainder is found, and everything up to and including it is a completed
  sentence, trimmed and removed from the remainder. \<open>spec_first_terminator\<close> is the
  index just after the earliest terminator.
\<close>

definition is_terminal_punct :: "int \<Rightarrow> bool" where
  "is_terminal_punct c = (c \<in> {46, 33, 63})"

fun spec_first_terminator :: "pystr \<Rightarrow> nat option" where
  "spec_first_terminator (a # b # cs) =
     (if is_terminal_punct a \<and> isspace b then Some 2
      else map_option Suc (spec_first_terminator (b # cs)))"
| "spec_first_terminator _ = None"

definition spec_next_sentence :: "pystr \<Rightarrow> (pystr \<times> pystr) option" where
  "spec_next_sentence remainder =
     (case spec_first_terminator remainder of
        None \<Rightarrow> None
      | Some e \<Rightarrow> Some (strip (take e remainder), drop e remainder))"

text \<open>
  Words for what the loop of the source does. One of the six separators stands at
  index \<open>i\<close> of a buffer (\<open>boundary_at\<close>). A piece is a text that ends with a
  separator and has no separator before that one: what is cut off at the earliest
  separator. A remainder is settled when no separator in it is followed by any text:
  the loop has nothing left to cut.
\<close>

definition boundary_at :: "pystr \<Rightarrow> nat \<Rightarrow> bool" where
  "boundary_at buf i = (\<exists>sep\<in>set seps. prefix sep (drop i buf))"

definition is_piece :: "pystr \<Rightarrow> bool" where
  "is_piece p =
     (2 \<le> length p \<and> boundary_at p (length p - 2) \<and>
      list_all (\<lambda>j. \<not> boundary_at p j) [0..<length p - 2])"

definition settled :: "pystr \<Rightarrow> bool" where
  "settled r = list_all (\<lambda>i. boundary_at r i \<longrightarrow> i + 2 = length r) [0..<length r]"

definition trimmed :: "pystr \<Rightarrow> bool" where
  "trimmed s = (s \<noteq> [] \<and> \<not> isspace (hd s) \<and> \<not> isspace (last s))"

definition nonspace :: "pystr \<Rightarrow> pystr" where
  "nonspace t = filter (\<lambda>c. \<not> isspace c) t"

text \<open>
  The invariant of the \<^verbatim>\<open>for\<close> loop over the separators \<open>S\<close> seen so far: the index
  is still the length of the buffer and none of them occurs, or it is the end of the
  earliest occurrence of any of them.
\<close>

definition bnd_inv :: "pystr \<Rightarrow> pystr set \<Rightarrow> int \<Rightarrow> bool" where
  "bnd_inv buf S e =
     ((e = int (length buf) \<and> (\<forall>s\<in>S. \<forall>i. \<not> prefix s (drop i buf))) \<or>
      (\<exists>i. e = int i + 2 \<and> (\<exists>s\<in>S. prefix s (drop i buf)) \<and>
           (\<forall>s\<in>S. \<forall>j<i. \<not> prefix s (drop j buf))))"

section \<open>The resampler (main.py, \<^verbatim>\<open>_resample_pcm16\<close>)\<close>

text \<open>
  The exceptions of the model. \<open>ValueError\<close>: \<^verbatim>\<open>np.frombuffer\<close> on a buffer whose size
  is not a multiple of the element size, and a client payload that does not decode;
  \<open>KeyError\<close>: a client message without its \<^verbatim>\<open>type\<close>; \<open>AttributeError\<close>:
  \<^verbatim>\<open>.strip()\<close> on a value that is not a string; \<open>ProviderError\<close>: whatever a
  collaborator raises.
\<close>

datatype error = ValueError | ZeroDivisionError | KeyError | AttributeError | ProviderError

text \<open>\<^verbatim>\<open>np.frombuffer(b, dtype=np.int16)\<close> and \<^verbatim>\<open>a.tobytes()\<close>, little-endian.\<close>

definition int16_of_bytes :: "8 word \<Rightarrow> 8 word \<Rightarrow> 16 word" where
  "int16_of_bytes lo hi = word_of_nat (unat lo + 256 * unat hi)"

definition bytes_of_int16 :: "16 word \<Rightarrow> 8 word list" where
  "bytes_of_int16 w = [word_of_nat (unat w mod 256), word_of_nat (unat w div 256)]"

fun frombuffer_int16 :: "8 word list \<Rightarrow> error + 16 word list" where
  "frombuffer_int16 [] = Inr []"
| "frombuffer_int16 [b] = Inl ValueError"
| "frombuffer_int16 (lo # hi # rest) =
     (case frombuffer_int16 rest of
        Inl e \<Rightarrow> Inl e
      | Inr ws \<Rightarrow> Inr (int16_of_bytes lo hi # ws))"

definition tobytes_int16 :: "16 word list \<Rightarrow> 8 word list" where
  "tobytes_int16 ws = concat (map bytes_of_int16 ws)"

text \<open>
  Lines 103 to 111 of the source compute in floating point (the number of destination
  samples by \<^verbatim>\<open>round\<close> of a double quotient, the grids by \<^verbatim>\<open>np.linspace\<close> in
  binary32, the samples by \<^verbatim>\<open>np.interp\<close>). The model takes that computation as the
  parameter \<open>fkernel\<close>, from the source samples and the two rates to the destination
  samples or an exception, and keeps what is decided without it: the two early returns,
  the decoding and its \<open>ValueError\<close>, the division by a zero rate, the encoding.
\<close>

type_synonym float_kernel = "16 word list \<Rightarrow> int \<Rightarrow> int \<Rightarrow> error + 16 word list"

definition resample_pcm16 ::
    "float_kernel \<Rightarrow> 8 word list \<Rightarrow> int \<Rightarrow> int \<Rightarrow> error + 8 word list" where
  "resample_pcm16 fkernel audio_bytes src_rate dst_rate =
     (if src_rate = dst_rate \<or> audio_bytes = [] then Inr audio_bytes
      else
        (case frombuffer_int16 audio_bytes of
           Inl e \<Rightarrow> Inl e
         | Inr audio_i16 \<Rightarrow>
             if audio_i16 = [] then Inr audio_bytes
             else if src_rate = 0 then Inl ZeroDivisionError
             else
               (case fkernel audio_i16 src_rate dst_rate of
                  Inl e \<Rightarrow> Inl e
                | Inr out_i16 \<Rightarrow> Inr (tobytes_int16 out_i16))))"

section \<open>The realtime transcription session (aliyun_stt.py)\<close>

text \<open>
  The dictionaries the callback bridge puts on the session's queue. The text of a
  partial or final event is what the provider sent: a string, or (\<open>NotText\<close>) a value
  that is true in Python and has no \<^verbatim>\<open>strip\<close>. A missing or false value counts as
  the empty string (\<^verbatim>\<open>event.get("text") or ""\<close>).
\<close>

datatype payload = Text pystr | NotText

datatype rt_event = SpeechStarted | SpeechStopped | Partial payload | Final payload | Closed

text \<open>
  \<^verbatim>\<open>AliyunASRRealtimeSession\<close>. \<open>conversation\<close> says that \<^verbatim>\<open>self._conversation\<close> is
  not \<^verbatim>\<open>None\<close>.
\<close>

record session =
  conversation :: bool
  event_queue :: "rt_event list"
  final_transcript :: pystr
  partial_transcript :: pystr
  saw_speech_started :: bool

definition new_session :: session where
  "new_session = \<lparr>conversation = False, event_queue = [], final_transcript = [],
     partial_transcript = [], saw_speech_started = False\<rparr>"

text \<open>
  The provider and the clock while one call of the session runs. The callback thread
  fills the queue on its own: \<open>arrivals w i\<close> are the events it has put there between
  the previous drain and the \<open>i\<close>-th drain of the call. Time is in milliseconds:
  \<open>now0\<close> is what \<^verbatim>\<open>time.time()\<close> reads when the deadline is computed, and the
  \<open>i\<close>-th round of the polling loop (its drain and its \<^verbatim>\<open>asyncio.sleep(0.05)\<close>) moves the
  clock on by 50 ms and \<open>sleep_extra w i\<close> more.
\<close>

record rt_world =
  start_raises :: "error option"
  append_raises :: "error option"
  end_session_raises :: bool
  close_raises :: bool
  now0 :: int
  sleep_extra :: "nat \<Rightarrow> nat"
  arrivals :: "nat \<Rightarrow> rt_event list"

datatype rt_call = Connect | AppendAudio | EndSession | CloseConversation

text \<open>\<^verbatim>\<open>start\<close>: the conversation is connected and configured, or an exception.\<close>

definition start :: "rt_world \<Rightarrow> session \<Rightarrow> error + session" where
  "start w s =
     (case start_raises w of
        Some e \<Rightarrow> Inl e
      | None \<Rightarrow> Inr (s\<lparr>conversation := True\<rparr>))"

text \<open>
  \<^verbatim>\<open>append_audio_float32\<close>: nothing without a conversation or on an empty chunk;
  otherwise the chunk goes to the provider, which may raise.
\<close>

definition append_audio_float32 ::
    "rt_world \<Rightarrow> session \<Rightarrow> real list \<Rightarrow> rt_call list \<times> error option" where
  "append_audio_float32 w s audio_np =
     (if \<not> conversation s then ([], None)
      else if length audio_np = 0 then ([], None)
      else ([AppendAudio], append_raises w))"

text \<open>The callback thread's \<^verbatim>\<open>event_queue.put\<close>.\<close>

definition put_events :: "rt_event list \<Rightarrow> session \<Rightarrow> session" where
  "put_events events s = s\<lparr>event_queue := event_queue s @ events\<rparr>"

text \<open>\<^verbatim>\<open>(event.get("text") or "").strip()\<close>\<close>

definition stripped_text :: "payload \<Rightarrow> error + pystr" where
  "stripped_text p = (case p of Text t \<Rightarrow> Inr (strip t) | NotText \<Rightarrow> Inl AttributeError)"

text \<open>
  The body of the loop of \<^verbatim>\<open>drain_events\<close> for one event taken from the queue: the
  flag first, then the transcript, whose \<^verbatim>\<open>strip\<close> raises before the assignment.
\<close>

definition apply_event :: "session \<Rightarrow> rt_event \<Rightarrow> error + session" where
  "apply_event s event =
     (let s1 = (if event = SpeechStarted then s\<lparr>saw_speech_started := True\<rparr> else s)
      in case event of
           Final p \<Rightarrow>
             (case stripped_text p of
                Inl e \<Rightarrow> Inl e
              | Inr t \<Rightarrow> Inr (s1\<lparr>final_transcript := t\<rparr>))
         | Partial p \<Rightarrow>
             (case stripped_text p of
                Inl e \<Rightarrow> Inl e
              | Inr t \<Rightarrow> Inr (s1\<lparr>partial_transcript := t\<rparr>))
         | _ \<Rightarrow> Inr s1)"

text \<open>
  \<^verbatim>\<open>drain_events\<close>: the queue is emptied event by event. The result is the list of
  the events, or the exception of the event that raised; that event is off the queue
  and the earlier ones have been applied.
\<close>

fun drain_from ::
    "session \<Rightarrow> rt_event list \<Rightarrow> rt_event list \<Rightarrow> (error + rt_event list) \<times> session" where
  "drain_from s events [] = (Inr events, s\<lparr>event_queue := []\<rparr>)"
| "drain_from s events (event # queue) =
     (case apply_event s event of
        Inl e \<Rightarrow> (Inl e, s\<lparr>event_queue := queue\<rparr>)
      | Inr s' \<Rightarrow> drain_from s' (events @ [event]) queue)"

definition drain_events :: "session \<Rightarrow> (error + rt_event list) \<times> session" where
  "drain_events s = drain_from s [] (event_queue s)"

text \<open>
  The polling loop of \<^verbatim>\<open>stop_and_get_transcript\<close>:
  \<^verbatim>\<open>while time.time() < deadline: drain; if final_transcript: break; sleep(0.05)\<close>.
  It returns the exception that ended it, if one did, the session, the clock when the
  loop is left and the number of drains done. Each round moves the clock on by at
  least 50, so the loop ends.
\<close>

function poll ::
    "rt_world \<Rightarrow> int \<Rightarrow> nat \<Rightarrow> int \<Rightarrow> session \<Rightarrow> error option \<times> session \<times> int \<times> nat" where
  "poll w deadline i now s =
     (if now < deadline then
        (case drain_events (put_events (arrivals w i) s) of
           (Inl e, s1) \<Rightarrow> (Some e, s1, now, Suc i)
         | (Inr events, s1) \<Rightarrow>
             if final_transcript s1 \<noteq> [] then (None, s1, now, Suc i)
             else poll w deadline (Suc i) (now + 50 + int (sleep_extra w i)) s1)
      else (None, s, now, i))"
  by pat_completeness auto
termination
  by (relation "measure (\<lambda>(w, deadline, i, now, s). nat (deadline - now))") auto

declare poll.simps [simp del]

text \<open>
  \<^verbatim>\<open>stop_and_get_transcript(timeout_sec)\<close>, the timeout in milliseconds. The result:
  the transcript or the exception that came out of a drain, the session, the clock at
  the return and the provider calls made. An exception of \<^verbatim>\<open>end_session\<close> is caught
  (the conversation is closed instead, an exception of that is caught as well).
\<close>

definition stop_and_get_transcript ::
    "rt_world \<Rightarrow> session \<Rightarrow> int \<Rightarrow> (error + pystr) \<times> session \<times> int \<times> rt_call list" where
  "stop_and_get_transcript w s timeout_ms =
     (let calls = (if conversation s
                   then (if end_session_raises w then [EndSession, CloseConversation]
                         else [EndSession])
                   else []);
          deadline = now0 w + timeout_ms
      in case poll w deadline 0 (now0 w) s of
           (Some e, s1, t_end, i) \<Rightarrow> (Inl e, s1, t_end, calls)
         | (None, s1, t_end, i) \<Rightarrow>
             (case drain_events (put_events (arrivals w i) s1) of
                (Inl e, s2) \<Rightarrow> (Inl e, s2, t_end, calls)
              | (Inr events, s2) \<Rightarrow>
                  (Inr (if final_transcript s2 \<noteq> [] then final_transcript s2
                        else if partial_transcript s2 \<noteq> [] then partial_transcript s2
                        else []),
                   s2, t_end, calls)))"

section \<open>The connection (main.py, \<^verbatim>\<open>websocket_endpoint\<close>)\<close>

text \<open>The JSON events the server sends, by their \<^verbatim>\<open>type\<close>, with their payload.\<close>

datatype event =
    ListeningStarted
  | ListeningStopped
  | VadStatus bool "string option"
  | Transcript pystr bool
  | ResponseChunk pystr
  | AudioChunk "8 word list" int
  | ResponseComplete pystr
  | Pong

text \<open>
  What the server does, in program order: the events it sends and the calls it makes
  to its collaborators. \<open>AudioChunk\<close> carries the bytes that the source sends in
  base64.
\<close>

datatype effect =
    Send event
  | CreateSession
  | ForwardAudio "real list"
  | StopSession int
  | IsSpeech "real list"
  | Transcribe "real list"
  | ChatStream pystr
  | Clean pystr
  | Synthesize pystr
  | CloseSocket

text \<open>
  The outside while one client message is handled. \<open>has_create_session\<close> is
  \<^verbatim>\<open>hasattr(stt, "create_session")\<close>; \<open>vad\<close> is the global \<^verbatim>\<open>vad\<close> (\<open>None\<close> when no
  local detector was loaded); \<open>mean_abs\<close> is \<^verbatim>\<open>float(np.mean(np.abs(audio_data)))\<close> as
  numpy computes it in binary32; \<open>resample_kernel\<close> is the floating point part of the
  resampler. A stream (\<open>chat_stream\<close>, \<open>synthesize_stream\<close>) is the list of what it
  yields and the exception that ends it, if one does. The sends to the client succeed.
\<close>

record world =
  has_create_session :: bool
  rt :: rt_world
  mean_abs :: "real list \<Rightarrow> real"
  resample_kernel :: float_kernel
  transcribe :: "real list \<Rightarrow> error + pystr"
  vad :: "(real list \<Rightarrow> bool) option"
  chat_stream :: "pystr \<Rightarrow> pystr list \<times> error option"
  clean_for_speech :: "pystr \<Rightarrow> pystr"
  synthesize_stream :: "pystr \<Rightarrow> 8 word list list \<times> error option"
  tts_output_sample_rate :: int

text \<open>The local variables of the endpoint that live across messages.\<close>

record conn =
  audio_buffer :: "real list list"
  is_listening :: bool
  asr_realtime_session :: "session option"

definition accepted :: conn where
  "accepted = \<lparr>audio_buffer = [], is_listening = False, asr_realtime_session = None\<rparr>"

datatype msg =
    StartListening
  | StopListening
  | Audio "real list option"
  | Ping
  | Other
  | Malformed
  | Disconnect

subsection \<open>\<^verbatim>\<open>start_listening\<close> (lines 330 to 346)\<close>

definition on_start_listening :: "world \<Rightarrow> conn \<Rightarrow> effect list \<times> error option \<times> conn" where
  "on_start_listening w st =
     (let st1 = st\<lparr>is_listening := True, audio_buffer := [], asr_realtime_session := None\<rparr>;
          (effs, st2) =
            (if has_create_session w then
               (case start (rt w) new_session of
                  Inl e \<Rightarrow> ([CreateSession], st1\<lparr>asr_realtime_session := None\<rparr>)
                | Inr s \<Rightarrow> ([CreateSession], st1\<lparr>asr_realtime_session := Some s\<rparr>))
             else ([], st1))
      in (effs @ [Send ListeningStarted], None, st2))"

subsection \<open>\<^verbatim>\<open>audio\<close> while listening (lines 483 to 516)\<close>

text \<open>The \<^verbatim>\<open>for event in drain_events()\<close> loop: a status for speech start and stop.\<close>

fun vad_events :: "rt_event list \<Rightarrow> effect list" where
  "vad_events [] = []"
| "vad_events (event # events) =
     (if event = SpeechStarted
      then [Send (VadStatus True (Some ''speech_started''))]
      else if event = SpeechStopped
      then [Send (VadStatus False (Some ''speech_stopped''))]
      else []) @ vad_events events"

text \<open>
  The payload is \<open>None\<close> when it does not decode (no \<^verbatim>\<open>data\<close>, not base64, not a
  whole number of float32 values): the handler raises before it changes anything. With
  a session, the forwarding, the drain and the sends stand in one \<^verbatim>\<open>try\<close>: an
  exception of the provider or of the drain is logged and nothing is sent.
\<close>

definition on_audio ::
    "world \<Rightarrow> conn \<Rightarrow> real list option \<Rightarrow> effect list \<times> error option \<times> conn" where
  "on_audio w st payload =
     (case payload of
        None \<Rightarrow> ([], Some ValueError, st)
      | Some audio_np \<Rightarrow>
          (let st1 = st\<lparr>audio_buffer := audio_buffer st @ [audio_np]\<rparr>
           in case asr_realtime_session st1 of
                Some s \<Rightarrow>
                  (case append_audio_float32 (rt w) s audio_np of
                     (calls, Some e) \<Rightarrow> ([ForwardAudio audio_np], None, st1)
                   | (calls, None) \<Rightarrow>
                       (case drain_events (put_events (arrivals (rt w) 0) s) of
                          (Inl e, s') \<Rightarrow>
                            ([ForwardAudio audio_np], None,
                             st1\<lparr>asr_realtime_session := Some s'\<rparr>)
                        | (Inr events, s') \<Rightarrow>
                            (ForwardAudio audio_np # vad_events events, None,
                             st1\<lparr>asr_realtime_session := Some s'\<rparr>)))
              | None \<Rightarrow>
                  (case vad w of
                     Some is_speech \<Rightarrow>
                       if 0 < length audio_np
                       then ([IsSpeech audio_np,
                              Send (VadStatus (is_speech audio_np) None)], None, st1)
                       else ([], None, st1)
                   | None \<Rightarrow> ([], None, st1))))"

subsection \<open>Progressive synthesis (lines 427 to 462)\<close>

text \<open>The \<^verbatim>\<open>async for audio_chunk in tts.synthesize_stream(...)\<close> loop.\<close>

fun emit_audio ::
    "float_kernel \<Rightarrow> int \<Rightarrow> 8 word list list \<Rightarrow> effect list \<times> error option" where
  "emit_audio fkernel rate [] = ([], None)"
| "emit_audio fkernel rate (audio_chunk # rest) =
     (case resample_pcm16 fkernel audio_chunk 24000 rate of
        Inl e \<Rightarrow> ([], Some e)
      | Inr out_chunk \<Rightarrow>
          (let (effs, r) = emit_audio fkernel rate rest
           in (Send (AudioChunk out_chunk rate) # effs, r)))"

definition synthesize :: "world \<Rightarrow> pystr \<Rightarrow> effect list \<times> error option" where
  "synthesize w speech_text =
     (let (chunks, fails) = synthesize_stream w speech_text;
          (effs, r) = emit_audio (resample_kernel w) (tts_output_sample_rate w) chunks
      in (Synthesize speech_text # effs, (case r of Some e \<Rightarrow> Some e | None \<Rightarrow> fails)))"

text \<open>\<^verbatim>\<open>if sentence: speech_text = clean_for_speech(sentence); if speech_text: ...\<close>\<close>

definition speak :: "world \<Rightarrow> pystr \<Rightarrow> effect list \<times> error option" where
  "speak w sentence =
     (if sentence \<noteq> [] then
        (let speech_text = clean_for_speech w sentence
         in if speech_text \<noteq> [] then
              (let (effs, r) = synthesize w speech_text in (Clean sentence # effs, r))
            else ([Clean sentence], None))
      else ([], None))"

text \<open>
  The \<^verbatim>\<open>while\<close> loop of lines 415 to 445 as it is written, the synthesis inside: the
  result is the buffer left, or the exception that ended the loop.
\<close>

function sentence_loop :: "world \<Rightarrow> pystr \<Rightarrow> effect list \<times> (error + pystr)" where
  "sentence_loop w sentence_buffer =
     (case next_sentence sentence_buffer of
        None \<Rightarrow> ([], Inr sentence_buffer)
      | Some (sentence, rest) \<Rightarrow>
          (case speak w sentence of
             (effs, Some e) \<Rightarrow> (effs, Inl e)
           | (effs, None) \<Rightarrow>
               (let (effs', r) = sentence_loop w rest in (effs @ effs', r))))"
  by pat_completeness auto
termination
  by (relation "measure (\<lambda>(w, b). length b)") (auto dest: next_sentence_shorter)

declare sentence_loop.simps [simp del]

text \<open>
  The \<^verbatim>\<open>async for chunk in backend.chat_stream(transcript)\<close> loop over the chunks the
  stream yields: the state is \<open>full_response\<close> and \<open>sentence_buffer\<close>.
\<close>

fun consume ::
    "world \<Rightarrow> pystr \<Rightarrow> pystr \<Rightarrow> pystr list \<Rightarrow> effect list \<times> (error + pystr \<times> pystr)" where
  "consume w full_response sentence_buffer [] = ([], Inr (full_response, sentence_buffer))"
| "consume w full_response sentence_buffer (chunk # chunks) =
     (case sentence_loop w (sentence_buffer @ chunk) of
        (effs, Inl e) \<Rightarrow> (Send (ResponseChunk chunk) # effs, Inl e)
      | (effs, Inr sentence_buffer') \<Rightarrow>
          (let (effs', r) = consume w (full_response @ chunk) sentence_buffer' chunks
           in (Send (ResponseChunk chunk) # effs @ effs', r)))"

text \<open>The branch \<^verbatim>\<open>if transcript.strip():\<close> of lines 396 to 469.\<close>

definition respond :: "world \<Rightarrow> pystr \<Rightarrow> effect list \<times> error option" where
  "respond w transcript =
     (let (chunks, fails) = chat_stream w transcript
      in case consume w [] [] chunks of
           (effs, Inl e) \<Rightarrow> (ChatStream transcript # effs, Some e)
         | (effs, Inr (full_response, sentence_buffer)) \<Rightarrow>
             (case fails of
                Some e \<Rightarrow> (ChatStream transcript # effs, Some e)
              | None \<Rightarrow>
                  (case speak w (strip sentence_buffer) of
                     (effs', Some e) \<Rightarrow> (ChatStream transcript # effs @ effs', Some e)
                   | (effs', None) \<Rightarrow>
                       (ChatStream transcript # effs @ effs' @
                          [Send (ResponseComplete full_response)], None))))"

subsection \<open>\<^verbatim>\<open>stop_listening\<close> (lines 348 to 481)\<close>

text \<open>
  The guarded call \<^verbatim>\<open>await asr_realtime_session.stop_and_get_transcript(...)\<close>: what
  the handler sees of it, the transcript or the exception and the session afterwards.
\<close>

definition await_stop :: "world \<Rightarrow> session \<Rightarrow> int \<Rightarrow> (error + pystr) \<times> session" where
  "await_stop w s timeout_ms =
     (let (res, s', t_end, calls) = stop_and_get_transcript (rt w) s timeout_ms
      in (res, s'))"

text \<open>From the \<open>transcript\<close> event to the end of the handler (lines 389 to 481).\<close>

definition close_turn ::
    "world \<Rightarrow> conn \<Rightarrow> pystr \<Rightarrow> effect list \<times> error option \<times> conn" where
  "close_turn w st transcript =
     (if strip transcript \<noteq> [] then
        (case respond w transcript of
           (effs, Some e) \<Rightarrow> (Send (Transcript transcript True) # effs, Some e, st)
         | (effs, None) \<Rightarrow>
             (Send (Transcript transcript True) # effs, None,
              st\<lparr>audio_buffer := [], asr_realtime_session := None\<rparr>))
      else
        ([Send (Transcript transcript True), Send (ResponseComplete [])], None,
         st\<lparr>audio_buffer := [], asr_realtime_session := None\<rparr>))"

text \<open>The realtime step (lines 364 to 370): the effects, the transcript, the state.\<close>

definition collect_realtime :: "world \<Rightarrow> conn \<Rightarrow> effect list \<times> pystr \<times> conn" where
  "collect_realtime w st =
     (case asr_realtime_session st of
        None \<Rightarrow> ([], [], st)
      | Some s \<Rightarrow>
          (case await_stop w s 3000 of
             (Inl e, s') \<Rightarrow> ([StopSession 3000], [], st\<lparr>asr_realtime_session := Some s'\<rparr>)
           | (Inr text, s') \<Rightarrow>
               ([StopSession 3000], text, st\<lparr>asr_realtime_session := Some s'\<rparr>)))"

text \<open>
  \<^verbatim>\<open>audio_energy\<close> (lines 356 to 362): the mean that numpy returns for a buffer that
  is not empty, else \<^verbatim>\<open>0.0\<close>.
\<close>

definition audio_energy :: "world \<Rightarrow> real list option \<Rightarrow> real" where
  "audio_energy w audio_data =
     (case audio_data of
        None \<Rightarrow> 0
      | Some d \<Rightarrow> if 0 < length d then mean_abs w d else 0)"

text \<open>
  The literal \<^verbatim>\<open>0.008\<close> of line 382 is the double nearest to 8/1000, which is
  1152921504606847 / 2^57. No binary32 value lies between the two, so for the energy
  the source computes, exceeding the one is exceeding the other.
\<close>

definition energy_threshold :: real where
  "energy_threshold = 1152921504606847 / 144115188075855872"

definition should_batch_fallback ::
    "world \<Rightarrow> real list option \<Rightarrow> pystr \<Rightarrow> conn \<Rightarrow> bool" where
  "should_batch_fallback w audio_data transcript st =
     (audio_data \<noteq> None \<and> strip transcript = [] \<and>
      (asr_realtime_session st = None \<or>
       (case asr_realtime_session st of Some s \<Rightarrow> saw_speech_started s | None \<Rightarrow> False) \<or>
       energy_threshold < audio_energy w audio_data))"

text \<open>\<^verbatim>\<open>if audio_buffer: audio_data = np.concatenate(audio_buffer)\<close>, else \<^verbatim>\<open>None\<close>.\<close>

definition buffered_audio :: "conn \<Rightarrow> real list option" where
  "buffered_audio st =
     (if audio_buffer st \<noteq> [] then Some (concat (audio_buffer st)) else None)"

definition on_stop_listening :: "world \<Rightarrow> conn \<Rightarrow> effect list \<times> error option \<times> conn" where
  "on_stop_listening w st =
     (let st1 = st\<lparr>is_listening := False\<rparr>;
          audio_data = buffered_audio st1;
          (effs1, transcript, st2) = collect_realtime w st1
      in case (if should_batch_fallback w audio_data transcript st2 then audio_data
               else None) of
           Some d \<Rightarrow>
             (case transcribe w d of
                Inl e \<Rightarrow> (Send ListeningStopped # effs1 @ [Transcribe d], Some e, st2)
              | Inr text \<Rightarrow>
                  (let (effs2, r, st3) = close_turn w st2 text
                   in (Send ListeningStopped # effs1 @ [Transcribe d] @ effs2, r, st3)))
         | None \<Rightarrow>
             (let (effs2, r, st3) = close_turn w st2 transcript
              in (Send ListeningStopped # effs1 @ effs2, r, st3)))"

subsection \<open>The message loop (lines 325 to 535)\<close>

fun handle :: "world \<Rightarrow> conn \<Rightarrow> msg \<Rightarrow> effect list \<times> error option \<times> conn" where
  "handle w st StartListening = on_start_listening w st"
| "handle w st StopListening = on_stop_listening w st"
| "handle w st (Audio payload) =
     (if is_listening st then on_audio w st payload else ([], None, st))"
| "handle w st Ping = ([Send Pong], None, st)"
| "handle w st Other = ([], None, st)"
| "handle w st Malformed = ([], Some KeyError, st)"
| "handle w st Disconnect = ([], None, st)"

text \<open>
  The two \<^verbatim>\<open>except\<close> clauses: a live session is stopped with a short timeout; after an
  exception other than the client's disconnect the socket is closed.
\<close>

definition cleanup :: "conn \<Rightarrow> effect list" where
  "cleanup st = (case asr_realtime_session st of Some s \<Rightarrow> [StopSession 500] | None \<Rightarrow> [])"

fun serve :: "conn \<Rightarrow> (world \<times> msg) list \<Rightarrow> effect list" where
  "serve st [] = []"
| "serve st ((w, m) # rest) =
     (if m = Disconnect then cleanup st
      else
        (case handle w st m of
           (effs, None, st') \<Rightarrow> effs @ serve st' rest
         | (effs, Some e, st') \<Rightarrow> effs @ cleanup st' @ [CloseSocket]))"

text \<open>The events among the effects.\<close>

fun sent :: "effect list \<Rightarrow> event list" where
  "sent [] = []"
| "sent (Send e # effs) = e # sent effs"
| "sent (_ # effs) = sent effs"

subsection \<open>What \<^verbatim>\<open>startup\<close> wires (lines 135 to 156 and 206 to 212)\<close>

record settings =
  stt_provider :: string
  aliyun_asr_mode :: string

text \<open>
  The realtime factory (the one transcriber with \<^verbatim>\<open>create_session\<close>) is built exactly
  when the provider is \<^verbatim>\<open>aliyun\<close> and the mode is not \<^verbatim>\<open>batch\<close>, and then no local
  detector is loaded.
\<close>

definition startup_has_create_session :: "settings \<Rightarrow> bool" where
  "startup_has_create_session cfg =
     (stt_provider cfg = ''aliyun'' \<and> aliyun_asr_mode cfg \<noteq> ''batch'')"

definition startup_loads_vad :: "settings \<Rightarrow> bool" where
  "startup_loads_vad cfg =
     (\<not> (stt_provider cfg = ''aliyun'' \<and> aliyun_asr_mode cfg \<noteq> ''batch''))"

definition wired_by :: "settings \<Rightarrow> world \<Rightarrow> bool" where
  "wired_by cfg w =
     (has_create_session w = startup_has_create_session cfg \<and>
      (vad w \<noteq> None) = startup_loads_vad cfg)"

section \<open>The shape of a response\<close>

text \<open>
  Names for parts of what the response phase does: the sentences handed to
  \<^verbatim>\<open>clean_for_speech\<close>, the synthesis effects (the calls of the synthesizer and the
  audio events), the chunks a synthesis sends until the resampler raises, the block of
  synthesis effects of one sentence, and the sentences spoken one after the other until
  the first exception.
\<close>

fun cleaned :: "effect list \<Rightarrow> pystr list" where
  "cleaned [] = []"
| "cleaned (Clean s # effs) = s # cleaned effs"
| "cleaned (_ # effs) = cleaned effs"

fun is_synthesis :: "effect \<Rightarrow> bool" where
  "is_synthesis (Synthesize _) = True"
| "is_synthesis (Send (AudioChunk _ _)) = True"
| "is_synthesis _ = False"

fun resampled :: "float_kernel \<Rightarrow> int \<Rightarrow> 8 word list list \<Rightarrow> 8 word list list" where
  "resampled fkernel rate [] = []"
| "resampled fkernel rate (audio_chunk # rest) =
     (case resample_pcm16 fkernel audio_chunk 24000 rate of
        Inl e \<Rightarrow> []
      | Inr out_chunk \<Rightarrow> out_chunk # resampled fkernel rate rest)"

definition sentence_block :: "world \<Rightarrow> pystr \<Rightarrow> effect list" where
  "sentence_block w sentence =
     (if sentence = [] \<or> clean_for_speech w sentence = [] then []
      else Synthesize (clean_for_speech w sentence) #
           map (\<lambda>out_chunk. Send (AudioChunk out_chunk (tts_output_sample_rate w)))
             (resampled (resample_kernel w) (tts_output_sample_rate w)
                (fst (synthesize_stream w (clean_for_speech w sentence)))))"

fun speak_all :: "world \<Rightarrow> pystr list \<Rightarrow> effect list \<times> error option" where
  "speak_all w [] = ([], None)"
| "speak_all w (s # ss) =
     (case speak w s of
        (effs, Some e) \<Rightarrow> (effs, Some e)
      | (effs, None) \<Rightarrow> (let (effs', r) = speak_all w ss in (effs @ effs', r)))"

fun is_speech_effect :: "effect \<Rightarrow> bool" where
  "is_speech_effect (Clean _) = True"
| "is_speech_effect (Synthesize _) = True"
| "is_speech_effect (Send (AudioChunk _ _)) = True"
| "is_speech_effect _ = False"

fun spoken :: "world \<Rightarrow> pystr list \<Rightarrow> pystr list" where
  "spoken w [] = []"
| "spoken w (s # ss) = (case snd (speak w s) of Some e \<Rightarrow> [s] | None \<Rightarrow> s # spoken w ss)"

fun is_stream_event :: "event \<Rightarrow> bool" where
  "is_stream_event (ResponseChunk _) = True"
| "is_stream_event (AudioChunk _ _) = True"
| "is_stream_event _ = False"

fun respond_effect :: "effect \<Rightarrow> bool" where
  "respond_effect (Send e) = is_stream_event e"
| "respond_effect (ChatStream _) = True"
| "respond_effect (Clean _) = True"
| "respond_effect (Synthesize _) = True"
| "respond_effect _ = False"

fun is_transcribe :: "effect \<Rightarrow> bool" where
  "is_transcribe (Transcribe _) = True"
| "is_transcribe _ = False"



section \<open>Worlds and states for the examples\<close>

text \<open>A provider that is silent and never raises; the clock starts at 0 and every
  round takes exactly 50 ms.\<close>

definition quiet_rt :: rt_world where
  "quiet_rt = \<lparr>start_raises = None, append_raises = None, end_session_raises = False,
     close_raises = False, now0 = 0, sleep_extra = (\<lambda>i. 0), arrivals = (\<lambda>i. [])\<rparr>"

text \<open>A provider whose callback has queued a speech start and a final transcript.\<close>

definition hearing_rt :: rt_world where
  "hearing_rt = quiet_rt\<lparr>arrivals :=
     (\<lambda>i. if i = 0 then [SpeechStarted, Final (Text (str ''hi ''))] else [])\<rparr>"


text \<open>Stand-ins for the floating point computations: the exact mean, and a kernel that
  keeps every sample when the rate goes up and the first two of three when it goes
  down from 24000 to 16000.\<close>

definition demo_mean_abs :: "real list \<Rightarrow> real" where
  "demo_mean_abs d = sum_list (map abs d) / of_nat (length d)"

definition demo_kernel :: float_kernel where
  "demo_kernel samples src_rate dst_rate =
     Inr (take (nat (max 1 ((int (length samples) * dst_rate) div src_rate))) samples)"

text \<open>A whisper-like setup: no realtime factory, a local detector, every collaborator
  answers.\<close>

definition demo_world :: world where
  "demo_world = \<lparr>has_create_session = False, rt = quiet_rt,
     mean_abs = demo_mean_abs, resample_kernel = demo_kernel,
     transcribe = (\<lambda>audio. Inr (str ''hello'')),
     vad = Some (\<lambda>audio. True),
     chat_stream =
       (\<lambda>t. ([str ''Hi'', str '' there.'', str '' How are you'', str ''?''], None)),
     clean_for_speech = (\<lambda>t. t),
     synthesize_stream = (\<lambda>t. ([[0, 0, 10, 0, 20, 0], [30, 0, 30, 0, 30, 0]], None)),
     tts_output_sample_rate = 16000\<rparr>"


text \<open>The same with a synthesizer whose second chunk has an odd number of bytes.\<close>

definition odd_chunk_world :: world where
  "odd_chunk_world =
     demo_world\<lparr>synthesize_stream := (\<lambda>t. ([[0, 0, 10, 0], [30, 0, 30]], None))\<rparr>"

text \<open>The realtime setup as \<^verbatim>\<open>startup\<close> wires it: a factory and no local detector.\<close>

definition realtime_world :: world where
  "realtime_world = demo_world\<lparr>has_create_session := True, vad := None\<rparr>"

text \<open>The realtime setup with a provider that has heard speech.\<close>

definition hearing_world :: world where
  "hearing_world = realtime_world\<lparr>rt := hearing_rt\<rparr>"


text \<open>The realtime setup when the session cannot be started.\<close>

definition no_session_world :: world where
  "no_session_world = realtime_world\<lparr>rt := quiet_rt\<lparr>start_raises := Some ProviderError\<rparr>\<rparr>"

definition realtime_cfg :: settings where
  "realtime_cfg = \<lparr>stt_provider = ''aliyun'', aliyun_asr_mode = ''realtime''\<rparr>"

text \<open>Connections in the middle of a turn: a loud tone or silence in the buffer, with
  and without a started session.\<close>

definition live_session :: session where
  "live_session = new_session\<lparr>conversation := True\<rparr>"


definition listening_silence_rt :: conn where
  "listening_silence_rt = \<lparr>audio_buffer = [[0, 0, 0, 0]], is_listening = True,
     asr_realtime_session = Some live_session\<rparr>"


subsection \<open>A turn whose realtime session could not be started\<close>

text \<open>
  What the local detector contributes for one chunk (lines 510 to 516), and a run of
  \<^verbatim>\<open>audio\<close> messages that decode, each with the outside at its arrival.
\<close>

definition local_vad :: "world \<Rightarrow> real list \<Rightarrow> effect list" where
  "local_vad w audio_np =
     (case vad w of
        Some is_speech \<Rightarrow>
          if 0 < length audio_np
          then [IsSpeech audio_np, Send (VadStatus (is_speech audio_np) None)]
          else []
      | None \<Rightarrow> [])"

definition audio_msgs :: "(world \<times> real list) list \<Rightarrow> (world \<times> msg) list" where
  "audio_msgs chunks = map (\<lambda>(w, audio_np). (w, Audio (Some audio_np))) chunks"

fun is_vad_status :: "event \<Rightarrow> bool" where
  "is_vad_status (VadStatus _ _) = True"
| "is_vad_status _ = False"

text \<open>A factory whose session cannot be started, beside a local detector: a wiring
  that \<^verbatim>\<open>startup\<close> never produces, which the handler itself does not exclude.\<close>

definition hybrid_world :: world where
  "hybrid_world = no_session_world\<lparr>vad := Some (\<lambda>audio. True)\<rparr>"

subsection \<open>The order of the events of a turn\<close>

text \<open>
  The position of an event in the order of the specification: \<open>listening_started\<close>,
  then the \<open>vad_status\<close> events, then \<open>listening_stopped\<close>, then the \<open>transcript\<close>,
  then the \<open>response_chunk\<close> and \<open>audio_chunk\<close> events, then \<open>response_complete\<close>.
  A \<open>pong\<close> answers a \<open>ping\<close> and belongs to no turn.
\<close>

fun rank :: "event \<Rightarrow> nat" where
  "rank ListeningStarted = 0"
| "rank (VadStatus _ _) = 1"
| "rank ListeningStopped = 2"
| "rank (Transcript _ _) = 3"
| "rank (ResponseChunk _) = 4"
| "rank (AudioChunk _ _) = 4"
| "rank (ResponseComplete _) = 5"
| "rank Pong = 1"

text \<open>The events of a run that belong to the turn.\<close>

definition turn_events :: "effect list \<Rightarrow> event list" where
  "turn_events effs = filter (\<lambda>e. e \<noteq> Pong) (sent effs)"

text \<open>
  A message inside a turn is neither the \<open>start_listening\<close> that opens one nor the
  \<open>stop_listening\<close> that closes it; it passes when it is handled without an exception
  (it decodes, and the client has not gone).
\<close>

fun inside_turn :: "world \<times> msg \<Rightarrow> bool" where
  "inside_turn (w, m) = (m \<noteq> StartListening \<and> m \<noteq> StopListening)"

fun passes :: "world \<times> msg \<Rightarrow> bool" where
  "passes (w, m) = (m \<noteq> Disconnect \<and> m \<noteq> Malformed \<and> m \<noteq> Audio None)"

section \<open>Properties of the text functions\<close>

subsection \<open>\<^verbatim>\<open>find\<close> returns the first occurrence\<close>

lemma py_find_none:
  "sep \<noteq> [] \<Longrightarrow> (py_find s sep = - 1) = (\<forall>i. \<not> prefix sep (drop i s))"
proof (induction s)
  case Nil
  then show ?case by simp
next
  case (Cons c cs)
  show ?case
  proof (cases "prefix sep (c # cs)")
    case True
    then have "prefix sep (drop 0 (c # cs))" by simp
    with True show ?thesis by (metis py_find.simps(2) zero_neq_neg_one)
  next
    case False
    have "(\<forall>i. \<not> prefix sep (drop i (c # cs))) = (\<forall>i. \<not> prefix sep (drop i cs))"
    proof
      assume a: "\<forall>i. \<not> prefix sep (drop i (c # cs))"
      show "\<forall>i. \<not> prefix sep (drop i cs)"
      proof
        fix i
        from a have "\<not> prefix sep (drop (Suc i) (c # cs))" by blast
        then show "\<not> prefix sep (drop i cs)" by simp
      qed
    next
      assume a: "\<forall>i. \<not> prefix sep (drop i cs)"
      show "\<forall>i. \<not> prefix sep (drop i (c # cs))"
      proof
        fix i
        show "\<not> prefix sep (drop i (c # cs))"
          using a False by (cases i) auto
      qed
    qed
    moreover have "(py_find (c # cs) sep = - 1) = (py_find cs sep = - 1)"
      using False py_find_ge [of cs sep] by (auto simp: Let_def)
    ultimately show ?thesis using Cons by simp
  qed
qed

lemma py_find_some:
  "py_find s sep = int i \<Longrightarrow> prefix sep (drop i s) \<and> (\<forall>j<i. \<not> prefix sep (drop j s))"
proof (induction s arbitrary: i)
  case Nil
  then show ?case by (auto split: if_splits)
next
  case (Cons c cs)
  show ?case
  proof (cases "prefix sep (c # cs)")
    case True
    with Cons.prems have "i = 0" by simp
    with True show ?thesis by simp
  next
    case False
    with Cons.prems have r: "py_find cs sep \<noteq> - 1" "py_find cs sep + 1 = int i"
      by (auto simp: Let_def split: if_splits)
    with py_find_ge [of cs sep] obtain k where k: "i = Suc k" "py_find cs sep = int k"
      by (cases i) auto
    from Cons.IH [OF k(2)]
    have ih: "prefix sep (drop k cs)" "\<forall>j<k. \<not> prefix sep (drop j cs)"
      by auto
    have "\<forall>j<i. \<not> prefix sep (drop j (c # cs))"
    proof (intro allI impI)
      fix j
      assume "j < i"
      then show "\<not> prefix sep (drop j (c # cs))"
        using False ih(2) k(1) by (cases j) auto
    qed
    with ih(1) k(1) show ?thesis by simp
  qed
qed

lemma py_find_nat:
  assumes "py_find s sep \<noteq> - 1"
  obtains k where "py_find s sep = int k"
proof -
  from assms py_find_ge [of s sep] have "0 \<le> py_find s sep" by linarith
  then show thesis using that by (metis nonneg_int_cases)
qed

subsection \<open>The separators\<close>

lemma sep_shape:
  "sep \<in> set seps \<Longrightarrow>
     \<exists>p g. sep = [p, g] \<and> p \<in> {46, 33, 63} \<and> g \<in> {32, 10}"
  by (auto simp: seps_def)

lemma prefix2_drop:
  "prefix [p, g] (drop i buf) = (Suc i < length buf \<and> buf ! i = p \<and> buf ! Suc i = g)"
proof (induction buf arbitrary: i)
  case Nil
  then show ?case by simp
next
  case (Cons c cs)
  show ?case
  proof (cases i)
    case 0
    then show ?thesis by (cases cs) auto
  next
    case (Suc k)
    then show ?thesis using Cons.IH [of k] by simp
  qed
qed

lemma bnd_inv_step:
  assumes inv: "bnd_inv buf S e" and sep: "sep \<in> set seps" and S: "S \<subseteq> set seps"
  shows "bnd_inv buf (insert sep S) (earliest_step buf e sep)"
proof -
  obtain p g where pg: "sep = [p, g]" "p \<in> {46, 33, 63}"
      "g \<in> {32, 10}"
    using sep_shape [OF sep] by blast
  have ne: "sep \<noteq> []" using pg by simp
  show ?thesis
  proof (cases "py_find buf sep = - 1")
    case True
    then have "\<forall>i. \<not> prefix sep (drop i buf)" using py_find_none [OF ne] by blast
    with inv True show ?thesis by (auto simp: bnd_inv_def earliest_step_def)
  next
    case False
    then obtain k where k: "py_find buf sep = int k" by (rule py_find_nat)
    from py_find_some [OF k] have occ: "prefix sep (drop k buf)"
      and first: "\<forall>j<k. \<not> prefix sep (drop j buf)" by auto
    from occ pg have kb: "Suc k < length buf" "buf ! k = p" "buf ! Suc k = g"
      by (auto simp: prefix2_drop)
    from inv show ?thesis unfolding bnd_inv_def
    proof (elim disjE conjE exE bexE)
      assume e: "e = int (length buf)" and none: "\<forall>s\<in>S. \<forall>i. \<not> prefix s (drop i buf)"
      have "earliest_step buf e sep = int k + 2"
        using k kb e pg by (simp add: earliest_step_def)
      with occ first none
      show "(earliest_step buf e sep = int (length buf) \<and>
          (\<forall>s\<in>insert sep S. \<forall>i. \<not> prefix s (drop i buf))) \<or>
         (\<exists>i. earliest_step buf e sep = int i + 2 \<and>
           (\<exists>s\<in>insert sep S. prefix s (drop i buf)) \<and>
           (\<forall>s\<in>insert sep S. \<forall>j<i. \<not> prefix s (drop j buf)))"
        by auto
    next
      fix i s
      assume e: "e = int i + 2" and sS: "s \<in> S" and socc: "prefix s (drop i buf)"
        and sfirst: "\<forall>s\<in>S. \<forall>j<i. \<not> prefix s (drop j buf)"
      from sS S have "s \<in> set seps" by blast
      then obtain p' g' where pg': "s = [p', g']" "p' \<in> {46, 33, 63}"
        "g' \<in> {32, 10}" using sep_shape by blast
      from socc pg' have ib: "Suc i < length buf" "buf ! i = p'" "buf ! Suc i = g'"
        by (auto simp: prefix2_drop)
      have neq: "k \<noteq> Suc i" using kb ib pg pg' by auto
      show "(earliest_step buf e sep = int (length buf) \<and>
          (\<forall>s\<in>insert sep S. \<forall>i. \<not> prefix s (drop i buf))) \<or>
         (\<exists>i. earliest_step buf e sep = int i + 2 \<and>
           (\<exists>s\<in>insert sep S. prefix s (drop i buf)) \<and>
           (\<forall>s\<in>insert sep S. \<forall>j<i. \<not> prefix s (drop j buf)))"
      proof (cases "k \<le> i")
        case True
        then have "earliest_step buf e sep = int k + 2"
          using k e pg by (simp add: earliest_step_def)
        moreover have "\<forall>s\<in>insert sep S. \<forall>j<k. \<not> prefix s (drop j buf)"
          using first sfirst True by auto
        ultimately show ?thesis using occ by blast
      next
        case False
        with neq have far: "i + 2 \<le> k" by simp
        then have "earliest_step buf e sep = int i + 2"
          using k e by (simp add: earliest_step_def)
        moreover have "\<forall>s\<in>insert sep S. \<forall>j<i. \<not> prefix s (drop j buf)"
          using first sfirst far by auto
        ultimately show ?thesis using socc sS by blast
      qed
    qed
  qed
qed

lemma bnd_inv_foldl:
  "bnd_inv buf S e \<Longrightarrow> set xs \<subseteq> set seps \<Longrightarrow> S \<subseteq> set seps \<Longrightarrow>
     bnd_inv buf (S \<union> set xs) (foldl (earliest_step buf) e xs)"
proof (induction xs arbitrary: S e)
  case Nil
  then show ?case by simp
next
  case (Cons x xs)
  from Cons.prems have x: "x \<in> set seps" and xs: "set xs \<subseteq> set seps" by auto
  have "bnd_inv buf (insert x S) (earliest_step buf e x)"
    using bnd_inv_step [OF Cons.prems(1) x Cons.prems(3)] .
  from Cons.IH [OF this xs] x Cons.prems(3)
  have "bnd_inv buf (insert x S \<union> set xs)
          (foldl (earliest_step buf) (earliest_step buf e x) xs)"
    by simp
  moreover have "insert x S \<union> set xs = S \<union> set (x # xs)" by auto
  ultimately show ?case by simp
qed

lemma earliest_boundary_inv: "bnd_inv buf (set seps) (earliest_boundary buf)"
proof -
  have "bnd_inv buf {} (int (length buf))" by (simp add: bnd_inv_def)
  from bnd_inv_foldl [OF this, of seps] show ?thesis by (simp add: earliest_boundary_def)
qed

lemma earliest_boundary_first:
  assumes "boundary_at buf i" and "\<forall>j<i. \<not> boundary_at buf j"
  shows "earliest_boundary buf = int i + 2"
proof -
  from earliest_boundary_inv [of buf] assms(1)
  obtain k where k: "earliest_boundary buf = int k + 2" "boundary_at buf k"
    "\<forall>j<k. \<not> boundary_at buf j"
    unfolding bnd_inv_def boundary_at_def by blast
  have "k = i" using assms k by (meson linorder_neqE_nat)
  with k show ?thesis by simp
qed

lemma contains_iff:
  "sep \<in> set seps \<Longrightarrow> contains buf sep = (\<exists>i. prefix sep (drop i buf))"
  using py_find_none [of sep buf] sep_shape [of sep] by (auto simp: contains_def)

lemma list_ex_contains: "list_ex (contains buf) seps = (\<exists>i. boundary_at buf i)"
  by (auto simp: list_ex_iff boundary_at_def contains_iff)

lemma next_sentence_Some:
  assumes "next_sentence buf = Some (s, rest)"
  shows "\<exists>i. boundary_at buf i \<and> (\<forall>j<i. \<not> boundary_at buf j) \<and> i + 2 < length buf \<and>
             s = strip (take (i + 2) buf) \<and> rest = drop (i + 2) buf"
proof -
  from assms have ex: "\<exists>i. boundary_at buf i"
    and lt: "earliest_boundary buf < int (length buf)"
    and s: "s = strip (take (nat (earliest_boundary buf)) buf)"
    and r: "rest = drop (nat (earliest_boundary buf)) buf"
    by (auto simp: next_sentence_def list_ex_contains Let_def split: if_splits)
  from ex obtain i where i: "boundary_at buf i" "\<forall>j<i. \<not> boundary_at buf j"
    using exists_least_iff [of "boundary_at buf"] by auto
  from earliest_boundary_first [OF i] have e: "earliest_boundary buf = int i + 2" .
  have "nat (int i + 2) = i + 2" by simp
  with e lt s r i show ?thesis by auto
qed

lemma boundary_at_iff:
  "boundary_at buf i =
     (Suc i < length buf \<and> buf ! i \<in> {46, 33, 63} \<and> buf ! Suc i \<in> {32, 10})"
proof
  assume "boundary_at buf i"
  then obtain sep where s: "sep \<in> set seps" "prefix sep (drop i buf)"
    by (auto simp: boundary_at_def)
  from sep_shape [OF s(1)] obtain p g where
    pg: "sep = [p, g]" "p \<in> {46, 33, 63}" "g \<in> {32, 10}" by blast
  from s(2) pg(1) have "Suc i < length buf \<and> buf ! i = p \<and> buf ! Suc i = g"
    by (simp add: prefix2_drop)
  with pg(2,3) show "Suc i < length buf \<and> buf ! i \<in> {46, 33, 63} \<and> buf ! Suc i \<in> {32, 10}"
    by blast
next
  assume a: "Suc i < length buf \<and> buf ! i \<in> {46, 33, 63} \<and> buf ! Suc i \<in> {32, 10}"
  then have "[buf ! i, buf ! Suc i] \<in> set seps" by (auto simp: seps_def)
  moreover have "prefix [buf ! i, buf ! Suc i] (drop i buf)"
    using a by (simp add: prefix2_drop)
  ultimately show "boundary_at buf i" unfolding boundary_at_def by blast
qed

lemma next_sentence_None:
  assumes "next_sentence buf = None" and "boundary_at buf k"
  shows "k + 2 = length buf"
proof -
  from assms(2) have ex: "\<exists>i. boundary_at buf i" by blast
  then obtain i where i: "boundary_at buf i" "\<forall>j<i. \<not> boundary_at buf j"
    using exists_least_iff [of "boundary_at buf"] by auto
  from earliest_boundary_first [OF i] have e: "earliest_boundary buf = int i + 2" .
  from assms(1) ex have "\<not> earliest_boundary buf < int (length buf)"
    by (auto simp: next_sentence_def list_ex_contains Let_def split: if_splits)
  with e have ge: "length buf \<le> i + 2" by simp
  from i(1) have "Suc i < length buf" by (simp add: boundary_at_iff)
  with ge have il: "i + 2 = length buf" by simp
  from assms(2) have "Suc k < length buf" by (simp add: boundary_at_iff)
  with il have "k \<le> i" by simp
  moreover have "i \<le> k" using i(2) assms(2) by (meson not_le_imp_less)
  ultimately show ?thesis using il by simp
qed

subsection \<open>\<^verbatim>\<open>strip\<close> removes whitespace at the two ends and nothing else\<close>

lemma rev_dropWhile_split:
  "xs = rev (dropWhile P (rev xs)) @ rev (takeWhile P (rev xs))"
proof -
  have "rev (takeWhile P (rev xs) @ dropWhile P (rev xs)) = rev (rev xs)"
    by (simp only: takeWhile_dropWhile_id)
  then show ?thesis by (simp only: rev_append rev_rev_ident)
qed

lemma takeWhile_all_space: "list_all isspace (takeWhile isspace s)"
  by (simp add: list_all_iff) (meson set_takeWhileD)

lemma strip_decomp:
  "\<exists>g1 g2. s = g1 @ strip s @ g2 \<and> list_all isspace g1 \<and> list_all isspace g2"
proof -
  let ?a = "dropWhile isspace s"
  have 1: "s = takeWhile isspace s @ ?a" by simp
  have 3: "?a = strip s @ rev (takeWhile isspace (rev ?a))"
    unfolding strip_def by (rule rev_dropWhile_split)
  have "s = takeWhile isspace s @ strip s @ rev (takeWhile isspace (rev ?a))"
    by (subst 1) (simp only: 3 [symmetric])
  moreover have "list_all isspace (rev (takeWhile isspace (rev ?a)))"
    using takeWhile_all_space [of "rev ?a"] by simp
  ultimately show ?thesis using takeWhile_all_space [of s] by blast
qed

lemma strip_trimmed: "strip s \<noteq> [] \<Longrightarrow> trimmed (strip s)"
proof -
  assume ne: "strip s \<noteq> []"
  let ?a = "dropWhile isspace s"
  let ?b = "dropWhile isspace (rev ?a)"
  from ne have bne: "?b \<noteq> []" by (simp add: strip_def)
  then have l: "\<not> isspace (hd ?b)" by (rule hd_dropWhile)
  have "last (strip s) = hd ?b" using bne by (simp add: strip_def last_rev)
  with l have last: "\<not> isspace (last (strip s))" by simp
  have ane: "?a \<noteq> []"
  proof
    assume a: "?a = []"
    have "?b = []" unfolding a by simp
    with bne show False by blast
  qed
  then have ha: "\<not> isspace (hd ?a)" by (rule hd_dropWhile)
  have "?a = strip s @ rev (takeWhile isspace (rev ?a))"
    unfolding strip_def by (rule rev_dropWhile_split)
  then have "hd ?a = hd (strip s)" using ne by (metis hd_append2)
  with ha have hdn: "\<not> isspace (hd (strip s))" by simp
  from ne hdn last show ?thesis by (simp add: trimmed_def)
qed

lemma strip_idem: "trimmed s \<Longrightarrow> strip s = s"
proof -
  assume t: "trimmed s"
  then have 1: "dropWhile isspace s = s" by (cases s) (auto simp: trimmed_def)
  from t have "rev s \<noteq> []" "\<not> isspace (hd (rev s))" by (auto simp: trimmed_def hd_rev)
  then have "dropWhile isspace (rev s) = rev s" by (cases "rev s") auto
  with 1 show ?thesis by (simp add: strip_def)
qed

lemma isspace_non_punct: "c \<in> {46, 33, 63} \<Longrightarrow> \<not> isspace c"
  by (auto simp: isspace_def)

lemma nonspace_append: "nonspace (a @ b) = nonspace a @ nonspace b"
  by (simp add: nonspace_def)

lemma nonspace_all_space: "list_all isspace g \<Longrightarrow> nonspace g = []"
  by (induction g) (auto simp: nonspace_def)

lemma nonspace_strip: "nonspace (strip s) = nonspace s"
proof -
  define m where "m = strip s"
  obtain g1 g2 where d: "s = g1 @ m @ g2" "list_all isspace g1" "list_all isspace g2"
    unfolding m_def using strip_decomp by blast
  have "nonspace s = nonspace g1 @ nonspace m @ nonspace g2"
    by (subst d(1)) (simp add: nonspace_append)
  then show ?thesis
    using nonspace_all_space [OF d(2)] nonspace_all_space [OF d(3)] by (simp add: m_def)
qed

lemma strip_Nil_all_space: "strip s = [] \<Longrightarrow> list_all isspace s"
proof -
  assume e: "strip s = []"
  obtain g1 g2 where d: "s = g1 @ strip s @ g2" "list_all isspace g1" "list_all isspace g2"
    using strip_decomp by blast
  have "s = g1 @ g2" by (subst d(1)) (simp add: e)
  then show ?thesis using d(2,3) by simp
qed

subsection \<open>The loop cuts pieces until the remainder is settled\<close>

lemma settled_iff: "settled r = (\<forall>i. boundary_at r i \<longrightarrow> i + 2 = length r)"
proof -
  have "boundary_at r i \<Longrightarrow> i < length r" for i by (simp add: boundary_at_iff)
  then show ?thesis unfolding settled_def list_all_iff by auto
qed

lemma is_piece_iff:
  "is_piece p =
     (2 \<le> length p \<and> boundary_at p (length p - 2) \<and> (\<forall>j<length p - 2. \<not> boundary_at p j))"
  unfolding is_piece_def list_all_iff by auto

lemma piece_not_blank: "is_piece p \<Longrightarrow> strip p \<noteq> []"
proof
  assume p: "is_piece p" and e: "strip p = []"
  from p have "boundary_at p (length p - 2)" by (simp add: is_piece_iff)
  then have "length p - 2 < length p" "p ! (length p - 2) \<in> {46, 33, 63}"
    by (auto simp: boundary_at_iff)
  then have "\<exists>c\<in>set p. \<not> isspace c"
    by (metis (no_types, lifting) insertE isspace_non_punct nth_mem singletonD)
  with strip_Nil_all_space [OF e] show False by (simp add: list_all_iff)
qed

lemma next_sentence_piece:
  assumes "next_sentence buf = Some (s, rest)"
  shows "\<exists>p. buf = p @ rest \<and> is_piece p \<and> s = strip p \<and> rest \<noteq> []"
proof -
  from next_sentence_Some [OF assms] obtain i where
    i: "boundary_at buf i" "\<forall>j<i. \<not> boundary_at buf j" "i + 2 < length buf"
       "s = strip (take (i + 2) buf)" "rest = drop (i + 2) buf" by blast
  define p where "p = take (i + 2) buf"
  have lp: "length p = i + 2" using i(3) by (simp add: p_def)
  have nth: "\<And>k. k < i + 2 \<Longrightarrow> p ! k = buf ! k" by (simp add: p_def)
  have sub: "\<And>j. boundary_at p j \<Longrightarrow> boundary_at buf j"
  proof -
    fix j
    assume b: "boundary_at p j"
    then have "Suc j < i + 2" using lp by (simp add: boundary_at_iff)
    with b nth [of j] nth [of "Suc j"] i(3) show "boundary_at buf j"
      by (simp add: boundary_at_iff lp)
  qed
  have "boundary_at p i"
    using i(1) nth [of i] nth [of "Suc i"] by (simp add: boundary_at_iff lp)
  moreover have "\<forall>j<i. \<not> boundary_at p j" using sub i(2) by blast
  ultimately have c2: "is_piece p" by (simp add: is_piece_iff lp)
  have c1: "buf = p @ rest" using i(5) by (simp add: p_def)
  have c3: "s = strip p" using i(4) by (simp add: p_def)
  have c4: "rest \<noteq> []" using i(3,5) by simp
  have "buf = p @ rest \<and> is_piece p \<and> s = strip p \<and> rest \<noteq> []"
    by (intro conjI) (rule c1 c2 c3 c4)+
  then show ?thesis by (rule exI)
qed

lemma extract_sentences_pieces:
  "extract_sentences buf = (ss, r) \<Longrightarrow>
     \<exists>pieces. buf = concat pieces @ r \<and> list_all is_piece pieces \<and>
              ss = map strip pieces \<and> settled r"
proof (induction buf arbitrary: ss r rule: extract_sentences.induct)
  case (1 buf)
  show ?case
  proof (cases "next_sentence buf")
    case None
    with "1.prems" have "ss = []" "r = buf" by (simp_all add: extract_sentences.simps)
    moreover have "settled buf" using next_sentence_None [OF None] by (simp add: settled_iff)
    ultimately have "buf = concat [] @ r \<and> list_all is_piece [] \<and> ss = map strip [] \<and> settled r"
      by simp
    then show ?thesis by (rule exI)
  next
    case (Some q)
    obtain s rest where q: "q = (s, rest)" by (cases q)
    obtain ss' r' where rec: "extract_sentences rest = (ss', r')"
      by (cases "extract_sentences rest")
    from next_sentence_piece [of buf s rest] Some q obtain p where
      p: "buf = p @ rest" "is_piece p" "s = strip p" by auto
    from piece_not_blank [OF p(2)] p(3) have sne: "s \<noteq> []" by simp
    from "1.prems" Some q rec sne have ss: "ss = s # ss'" and r: "r = r'"
      by (auto simp: extract_sentences.simps [of buf])
    from "1.IH" [OF Some q [symmetric] rec] obtain pieces where
      ih: "rest = concat pieces @ r'" "list_all is_piece pieces" "ss' = map strip pieces"
          "settled r'" by blast
    have "buf = concat (p # pieces) @ r" by (subst p(1), subst ih(1)) (simp add: r)
    moreover have "list_all is_piece (p # pieces)" using p(2) ih(2) by simp
    moreover have "ss = map strip (p # pieces)" using ss p(3) ih(3) by simp
    moreover have "settled r" using ih(4) r by simp
    ultimately have "buf = concat (p # pieces) @ r \<and> list_all is_piece (p # pieces) \<and>
        ss = map strip (p # pieces) \<and> settled r" by blast
    then show ?thesis by (rule exI)
  qed
qed

lemma feed_pieces:
  "feed buf chunks = (ss, r) \<Longrightarrow> settled buf \<Longrightarrow>
     \<exists>pieces. buf @ concat chunks = concat pieces @ r \<and> list_all is_piece pieces \<and>
              ss = map strip pieces \<and> settled r"
proof (induction chunks arbitrary: buf ss r)
  case Nil
  then have "buf @ concat [] = concat [] @ r \<and> list_all is_piece [] \<and>
      ss = map strip [] \<and> settled r" by simp
  then show ?case by (rule exI)
next
  case (Cons c cs)
  obtain s1 r1 where e: "extract_sentences (buf @ c) = (s1, r1)"
    by (cases "extract_sentences (buf @ c)")
  obtain s2 r2 where f: "feed r1 cs = (s2, r2)" by (cases "feed r1 cs")
  from Cons.prems(1) e f have ss: "ss = s1 @ s2" and r: "r = r2" by simp_all
  from extract_sentences_pieces [OF e] obtain p1 where
    p1: "buf @ c = concat p1 @ r1" "list_all is_piece p1" "s1 = map strip p1" "settled r1"
    by blast
  from Cons.IH [OF f p1(4)] obtain p2 where
    p2: "r1 @ concat cs = concat p2 @ r2" "list_all is_piece p2" "s2 = map strip p2"
        "settled r2" by blast
  have "buf @ concat (c # cs) = (buf @ c) @ concat cs" by simp
  also have "\<dots> = concat p1 @ (r1 @ concat cs)" unfolding p1(1) by simp
  also have "\<dots> = concat (p1 @ p2) @ r2" unfolding p2(1) by simp
  finally have "buf @ concat (c # cs) = concat (p1 @ p2) @ r" using r by simp
  moreover have "list_all is_piece (p1 @ p2)" using p1(2) p2(2) by simp
  moreover have "ss = map strip (p1 @ p2)" using ss p1(3) p2(3) by simp
  moreover have "settled r" using p2(4) r by simp
  ultimately have "buf @ concat (c # cs) = concat (p1 @ p2) @ r \<and>
      list_all is_piece (p1 @ p2) \<and> ss = map strip (p1 @ p2) \<and> settled r" by blast
  then show ?case by (rule exI)
qed

lemma segment_pieces:
  assumes "segment chunks = (during, after)"
  shows "\<exists>pieces r. concat chunks = concat pieces @ r \<and> list_all is_piece pieces \<and>
           during = map strip pieces \<and> settled r \<and>
           after = (if strip r = [] then [] else [strip r])"
proof -
  obtain ss r where f: "feed [] chunks = (ss, r)" by (cases "feed [] chunks")
  with assms have d: "during = ss" "after = flush r" by (auto simp: segment_def)
  have "settled []" by (simp add: settled_def)
  from feed_pieces [OF f this] obtain pieces where
    p: "concat chunks = concat pieces @ r" "list_all is_piece pieces" "ss = map strip pieces"
       "settled r" by auto
  have "concat chunks = concat pieces @ r \<and> list_all is_piece pieces \<and>
      during = map strip pieces \<and> settled r \<and>
      after = (if strip r = [] then [] else [strip r])"
    using p d by (simp add: flush_def)
  then show ?thesis by (intro exI)
qed

lemma nonspace_concat_strip: "nonspace (concat (map strip ps)) = nonspace (concat ps)"
  by (induction ps) (simp_all add: nonspace_append nonspace_strip)

lemma segment_nonspace:
  assumes "segment chunks = (during, after)"
  shows "nonspace (concat (during @ after)) = nonspace (concat chunks)"
proof -
  from segment_pieces [OF assms] obtain pieces r where
    p: "concat chunks = concat pieces @ r" "during = map strip pieces"
       "after = (if strip r = [] then [] else [strip r])" by blast
  have "nonspace (concat after) = nonspace r"
  proof (cases "strip r = []")
    case True
    then show ?thesis using p(3) nonspace_strip [of r] by (simp add: nonspace_def)
  next
    case False
    then show ?thesis using p(3) by (simp add: nonspace_strip)
  qed
  then show ?thesis unfolding p(1) p(2)
    by (simp add: nonspace_append nonspace_concat_strip)
qed

lemma segment_trimmed:
  assumes "segment chunks = (during, after)"
  shows "list_all trimmed (during @ after)"
proof -
  from segment_pieces [OF assms] obtain pieces r where
    p: "list_all is_piece pieces" "during = map strip pieces"
       "after = (if strip r = [] then [] else [strip r])" by blast
  have "list_all trimmed (map strip pieces)"
    using p(1) by (induction pieces) (simp_all add: piece_not_blank strip_trimmed)
  moreover have "list_all trimmed after" using p(3) strip_trimmed [of r] by simp
  ultimately show ?thesis using p(2) by simp
qed

section \<open>Properties of the response phase\<close>

lemma cleaned_append: "cleaned (a @ b) = cleaned a @ cleaned b"
  by (induction a rule: cleaned.induct) auto

lemma emit_audio_resampled:
  "fst (emit_audio fkernel rate chunks)
     = map (\<lambda>out_chunk. Send (AudioChunk out_chunk rate)) (resampled fkernel rate chunks)"
  by (induction chunks) (auto split: sum.splits prod.splits)

lemma speak_effects:
  "fst (speak w s) = (if s = [] then [] else Clean s # sentence_block w s)"
  by (auto simp: speak_def sentence_block_def synthesize_def Let_def
      emit_audio_resampled [symmetric] split: prod.splits)

lemma cleaned_block: "cleaned (sentence_block w s) = []"
proof -
  have "cleaned (map (\<lambda>out_chunk. Send (AudioChunk out_chunk r)) xs) = []" for r xs
    by (induction xs) auto
  then show ?thesis by (simp add: sentence_block_def)
qed

lemma synthesis_block: "filter is_synthesis (sentence_block w s) = sentence_block w s"
  by (simp add: sentence_block_def)

lemma speak_Nil: "speak w [] = ([], None)"
  by (simp add: speak_def)

lemma sentence_loop_speak_all:
  "sentence_loop w buf =
     (case speak_all w (fst (extract_sentences buf)) of
        (effs, Some e) \<Rightarrow> (effs, Inl e)
      | (effs, None) \<Rightarrow> (effs, Inr (snd (extract_sentences buf))))"
proof (induction buf rule: extract_sentences.induct)
  case (1 buf)
  show ?case
  proof (cases "next_sentence buf")
    case None
    then show ?thesis by (simp add: sentence_loop.simps [of w buf] extract_sentences.simps [of buf])
  next
    case (Some p)
    obtain s rest where p: "p = (s, rest)" by (cases p)
    obtain ss r where rec: "extract_sentences rest = (ss, r)" by (cases "extract_sentences rest")
    have ih: "sentence_loop w rest =
       (case speak_all w ss of (effs, Some e) \<Rightarrow> (effs, Inl e) | (effs, None) \<Rightarrow> (effs, Inr r))"
      using "1.IH" [OF Some p [symmetric]] by (simp add: rec split: prod.splits option.splits)
    have ex: "extract_sentences buf = ((if s \<noteq> [] then [s] else []) @ ss, r)"
      using Some p rec by (simp add: extract_sentences.simps [of buf])
    show ?thesis
    proof (cases "s = []")
      case True
      then show ?thesis using Some p ih ex
        by (simp add: sentence_loop.simps [of w buf] speak_Nil split: prod.splits option.splits)
    next
      case False
      then show ?thesis using Some p ih ex
        by (simp add: sentence_loop.simps [of w buf] split: prod.splits option.splits)
    qed
  qed
qed

lemma speech_block: "filter is_speech_effect (sentence_block w s) = sentence_block w s"
  by (simp add: sentence_block_def)

lemma speech_speak: "filter is_speech_effect (fst (speak w s)) = fst (speak w s)"
  by (simp add: speak_effects speech_block)

lemma speech_speak_all: "filter is_speech_effect (fst (speak_all w ss)) = fst (speak_all w ss)"
proof (induction ss)
  case Nil
  then show ?case by simp
next
  case (Cons s ss)
  obtain effs r where sp: "speak w s = (effs, r)" by (cases "speak w s")
  with speech_speak [of w s] have f: "filter is_speech_effect effs = effs" by simp
  obtain effs' r' where sa: "speak_all w ss = (effs', r')" by (cases "speak_all w ss")
  with Cons.IH have f': "filter is_speech_effect effs' = effs'" by simp
  show ?case using sp sa f f' by (cases r) simp_all
qed

lemma speak_all_append:
  "speak_all w (a @ b) =
     (case speak_all w a of
        (effs, Some e) \<Rightarrow> (effs, Some e)
      | (effs, None) \<Rightarrow> (let (effs', r) = speak_all w b in (effs @ effs', r)))"
proof (induction a)
  case Nil
  then show ?case by simp
next
  case (Cons s a)
  then show ?case by (auto split: prod.splits option.splits)
qed

lemma speak_all_spoken:
  "fst (speak_all w ss) = concat (map (\<lambda>s. fst (speak w s)) (spoken w ss))"
  by (induction ss) (auto split: prod.splits option.splits)

lemma spoken_prefix: "prefix (spoken w ss) ss"
  by (induction ss) (auto split: option.splits)

lemma spoken_all: "snd (speak_all w ss) = None \<Longrightarrow> spoken w ss = ss"
  by (induction ss) (auto split: prod.splits option.splits)

lemma consume_speak_all:
  "consume w full buf chunks = (effs, r) \<Longrightarrow> feed buf chunks = (ss, rem) \<Longrightarrow>
   speak_all w ss = (seffs, x) \<Longrightarrow>
     filter is_speech_effect effs = seffs \<and>
     r = (case x of Some e \<Rightarrow> Inl e | None \<Rightarrow> Inr (full @ concat chunks, rem))"
proof (induction chunks arbitrary: full buf effs r ss rem seffs x)
  case Nil
  then show ?case by auto
next
  case (Cons c cs)
  obtain s1 r1 where e: "extract_sentences (buf @ c) = (s1, r1)"
    by (cases "extract_sentences (buf @ c)")
  obtain s2 r2 where f: "feed r1 cs = (s2, r2)" by (cases "feed r1 cs")
  from Cons.prems(2) e f have ss: "ss = s1 @ s2" and rem: "rem = r2" by simp_all
  obtain e1 x1 where sa: "speak_all w s1 = (e1, x1)" by (cases "speak_all w s1")
  have sp1: "filter is_speech_effect e1 = e1" using speech_speak_all [of w s1] sa by simp
  have e1': "fst (extract_sentences (buf @ c)) = s1" "snd (extract_sentences (buf @ c)) = r1"
    using e by simp_all
  show ?case
  proof (cases x1)
    case (Some err)
    have sl: "sentence_loop w (buf @ c) = (e1, Inl err)"
      unfolding sentence_loop_speak_all e1' sa Some by simp
    with Cons.prems(1) have er: "effs = Send (ResponseChunk c) # e1" "r = Inl err" by auto
    have "speak_all w (s1 @ s2) = (e1, Some err)"
      unfolding speak_all_append sa Some by simp
    with Cons.prems(3) ss have "seffs = e1" "x = Some err" by simp_all
    with er sp1 show ?thesis by simp
  next
    case None
    have sl: "sentence_loop w (buf @ c) = (e1, Inr r1)"
      unfolding sentence_loop_speak_all e1' sa None by simp
    obtain e2 x2 where c2: "consume w (full @ c) r1 cs = (e2, x2)"
      by (cases "consume w (full @ c) r1 cs")
    obtain e2' x2' where sa2: "speak_all w s2 = (e2', x2')" by (cases "speak_all w s2")
    from Cons.IH [OF c2 f sa2]
    have ih1: "filter is_speech_effect e2 = e2'"
      and ih2: "x2 = (case x2' of Some e \<Rightarrow> Inl e | None \<Rightarrow> Inr ((full @ c) @ concat cs, r2))"
      by blast+
    from Cons.prems(1) sl c2 have er: "effs = Send (ResponseChunk c) # e1 @ e2" "r = x2"
      by auto
    have "speak_all w (s1 @ s2) = (e1 @ e2', x2')"
      unfolding speak_all_append sa None sa2 by simp
    with Cons.prems(3) ss have sx: "seffs = e1 @ e2'" "x = x2'" by simp_all
    have "filter is_speech_effect effs = seffs" using er(1) sx(1) sp1 ih1 by simp
    moreover have "r = (case x of Some e \<Rightarrow> Inl e
        | None \<Rightarrow> Inr (full @ concat (c # cs), rem))"
      unfolding er(2) ih2 sx(2) rem by (cases x2') simp_all
    ultimately show ?thesis by blast
  qed
qed

lemma sent_append: "sent (a @ b) = sent a @ sent b"
  by (induction a rule: sent.induct) auto

lemma sent_respond_effects:
  "list_all respond_effect effs \<Longrightarrow> list_all is_stream_event (sent effs)"
  by (induction effs rule: sent.induct) auto

lemma respond_effect_block: "list_all respond_effect (sentence_block w s)"
  by (simp add: sentence_block_def list_all_iff)

lemma respond_effect_speak: "list_all respond_effect (fst (speak w s))"
  by (simp add: speak_effects respond_effect_block)

lemma respond_effect_speak_all: "list_all respond_effect (fst (speak_all w ss))"
proof (induction ss)
  case Nil
  then show ?case by simp
next
  case (Cons s ss)
  obtain effs r where sp: "speak w s = (effs, r)" by (cases "speak w s")
  with respond_effect_speak [of w s] have f: "list_all respond_effect effs" by simp
  obtain effs' r' where sa: "speak_all w ss = (effs', r')" by (cases "speak_all w ss")
  with Cons.IH have f': "list_all respond_effect effs'" by simp
  show ?case using sp sa f f' by (cases r) simp_all
qed

lemma respond_effect_sentence_loop: "list_all respond_effect (fst (sentence_loop w buf))"
proof -
  obtain e x where sa: "speak_all w (fst (extract_sentences buf)) = (e, x)"
    by (cases "speak_all w (fst (extract_sentences buf))")
  with respond_effect_speak_all [of w "fst (extract_sentences buf)"]
  have "list_all respond_effect e" by simp
  then show ?thesis unfolding sentence_loop_speak_all sa by (cases x) simp_all
qed

lemma respond_effect_consume:
  "list_all respond_effect (fst (consume w full buf chunks))"
proof (induction chunks arbitrary: full buf)
  case Nil
  then show ?case by simp
next
  case (Cons c cs)
  obtain e r where sl: "sentence_loop w (buf @ c) = (e, r)"
    by (cases "sentence_loop w (buf @ c)")
  with respond_effect_sentence_loop [of w "buf @ c"] have e: "list_all respond_effect e" by simp
  show ?case
  proof (cases r)
    case (Inl err)
    with sl e show ?thesis by simp
  next
    case (Inr b)
    obtain e2 r2 where c2: "consume w (full @ c) b cs = (e2, r2)"
      by (cases "consume w (full @ c) b cs")
    with Cons.IH [of "full @ c" b] have "list_all respond_effect e2" by simp
    with sl Inr c2 e show ?thesis by simp
  qed
qed

lemma consume_full:
  "consume w full buf chunks = (effs, Inr (full', buf')) \<Longrightarrow> full' = full @ concat chunks"
proof (induction chunks arbitrary: full buf effs)
  case Nil
  then show ?case by simp
next
  case (Cons c cs)
  obtain e r where sl: "sentence_loop w (buf @ c) = (e, r)"
    by (cases "sentence_loop w (buf @ c)")
  show ?case
  proof (cases r)
    case (Inl err)
    with sl Cons.prems show ?thesis by simp
  next
    case (Inr b)
    obtain e2 r2 where c2: "consume w (full @ c) b cs = (e2, r2)"
      by (cases "consume w (full @ c) b cs")
    with sl Inr Cons.prems have "r2 = Inr (full', buf')" by simp
    with c2 Cons.IH [of "full @ c" b e2] show ?thesis by simp
  qed
qed

lemma respond_shape:
  assumes "respond w t = (effs, r)"
  shows "\<exists>body. list_all respond_effect body \<and>
           effs = body @ (if r = None
                          then [Send (ResponseComplete (concat (fst (chat_stream w t))))]
                          else [])"
proof -
  obtain chunks fails where cs: "chat_stream w t = (chunks, fails)"
    by (cases "chat_stream w t")
  obtain e x where co: "consume w [] [] chunks = (e, x)" by (cases "consume w [] [] chunks")
  from respond_effect_consume [of w "[]" "[]" chunks] co have e: "list_all respond_effect e"
    by simp
  show ?thesis
  proof (cases x)
    case (Inl err)
    with assms cs co have "effs = ChatStream t # e" "r = Some err"
      by (simp_all add: respond_def)
    with e show ?thesis by simp
  next
    case (Inr p)
    obtain full sb where p: "p = (full, sb)" by (cases p)
    from consume_full [of w "[]" "[]" chunks e full sb] co Inr p
    have full: "full = concat chunks" by simp
    show ?thesis
    proof (cases fails)
      case (Some err)
      with assms cs co Inr p have "effs = ChatStream t # e" "r = Some err"
        by (simp_all add: respond_def)
      with e show ?thesis by simp
    next
      case None
      obtain e2 x2 where sp: "speak w (strip sb) = (e2, x2)" by (cases "speak w (strip sb)")
      with respond_effect_speak [of w "strip sb"] have e2: "list_all respond_effect e2" by simp
      show ?thesis
      proof (cases x2)
        case (Some err)
        with assms cs co Inr p None sp have "effs = ChatStream t # e @ e2" "r = Some err"
          by (simp_all add: respond_def)
        with e e2 show ?thesis by simp
      next
        case None2: None
        with assms cs co Inr p None sp
        have "effs = (ChatStream t # e @ e2) @ [Send (ResponseComplete full)]" "r = None"
          by (simp_all add: respond_def)
        moreover have "list_all respond_effect (ChatStream t # e @ e2)" using e e2 by simp
        moreover have "fst (chat_stream w t) = chunks" using cs by simp
        ultimately have "list_all respond_effect (ChatStream t # e @ e2) \<and>
            effs = (ChatStream t # e @ e2) @
              (if r = None then [Send (ResponseComplete (concat (fst (chat_stream w t))))]
               else [])"
          using full by simp
        then show ?thesis by (rule exI)
      qed
    qed
  qed
qed

lemma respond_effect_not_transcribe:
  "list_all respond_effect effs \<Longrightarrow> filter is_transcribe effs = []"
proof (induction effs)
  case Nil
  then show ?case by simp
next
  case (Cons a effs)
  then show ?case by (cases a) simp_all
qed

lemma close_turn_shape:
  assumes "close_turn w st t = (effs, r, st')"
  shows "\<exists>body full. list_all respond_effect body \<and>
           effs = Send (Transcript t True) # body @
                    (if r = None then [Send (ResponseComplete full)] else [])"
proof (cases "strip t = []")
  case True
  with assms have "effs = Send (Transcript t True) # [] @ [Send (ResponseComplete [])]" "r = None"
    by (simp_all add: close_turn_def)
  moreover have "list_all respond_effect []" by simp
  ultimately have "list_all respond_effect [] \<and>
      effs = Send (Transcript t True) # [] @
        (if r = None then [Send (ResponseComplete [])] else [])" by simp
  then show ?thesis by (intro exI)
next
  case False
  obtain e x where re: "respond w t = (e, x)" by (cases "respond w t")
  from respond_shape [OF re] obtain body where
    b: "list_all respond_effect body"
       "e = body @ (if x = None
                    then [Send (ResponseComplete (concat (fst (chat_stream w t))))] else [])"
    by blast
  from assms False re have "effs = Send (Transcript t True) # e" "r = x"
    by (auto simp: close_turn_def split: option.splits)
  with b show ?thesis by blast
qed

lemma close_turn_state:
  "close_turn w st t = (effs, None, st') \<Longrightarrow>
     st' = st\<lparr>audio_buffer := [], asr_realtime_session := None\<rparr>"
  by (auto simp: close_turn_def split: if_splits prod.splits option.splits)

lemma collect_realtime_effects:
  "collect_realtime w st = (effs1, t, st2) \<Longrightarrow>
     effs1 = (if asr_realtime_session st = None then [] else [StopSession 3000])"
  by (auto simp: collect_realtime_def split: option.splits prod.splits sum.splits)

lemma stop_shape:
  assumes "on_stop_listening w st = (effs, r, st')"
    and "collect_realtime w (st\<lparr>is_listening := False\<rparr>) = (effs1, t, st2)"
  shows "(\<not> should_batch_fallback w (buffered_audio st) t st2 \<longrightarrow>
            (effs, r, st') =
              (case close_turn w st2 t of
                 (effs2, r2, st3) \<Rightarrow> (Send ListeningStopped # effs1 @ effs2, r2, st3))) \<and>
         (should_batch_fallback w (buffered_audio st) t st2 \<longrightarrow>
            (\<exists>d. buffered_audio st = Some d \<and>
              (case transcribe w d of
                 Inl e \<Rightarrow> (effs, r, st') =
                    (Send ListeningStopped # effs1 @ [Transcribe d], Some e, st2)
               | Inr text \<Rightarrow> (effs, r, st') =
                    (case close_turn w st2 text of
                       (effs2, r2, st3) \<Rightarrow>
                         (Send ListeningStopped # effs1 @ [Transcribe d] @ effs2, r2, st3)))))"
proof -
  have ba: "buffered_audio (st\<lparr>is_listening := False\<rparr>) = buffered_audio st"
    by (simp add: buffered_audio_def)
  show ?thesis
  proof (cases "should_batch_fallback w (buffered_audio st) t st2")
    case False
    with assms show ?thesis
      by (simp add: on_stop_listening_def ba Let_def split: prod.splits)
  next
    case True
    then obtain d where d: "buffered_audio st = Some d"
      by (auto simp: should_batch_fallback_def)
    with assms True show ?thesis
      by (auto simp: on_stop_listening_def ba Let_def split: prod.splits sum.splits)
  qed
qed

lemma close_turn_no_transcribe:
  "filter is_transcribe (fst (close_turn w st t)) = []"
proof -
  obtain effs r st' where c: "close_turn w st t = (effs, r, st')"
    by (cases "close_turn w st t") auto
  from close_turn_shape [OF c] obtain body full where
    b: "list_all respond_effect body"
       "effs = Send (Transcript t True) # body @
          (if r = None then [Send (ResponseComplete full)] else [])" by blast
  from respond_effect_not_transcribe [OF b(1)] b(2) c show ?thesis by simp
qed

lemma close_turn_sent:
  assumes "close_turn w st t = (effs, r, st')"
  shows "\<exists>body full. list_all is_stream_event body \<and>
           sent effs = Transcript t True # body @
                    (if r = None then [ResponseComplete full] else [])"
proof -
  from close_turn_shape [OF assms] obtain body full where
    b: "list_all respond_effect body"
       "effs = Send (Transcript t True) # body @
          (if r = None then [Send (ResponseComplete full)] else [])" by blast
  have "list_all is_stream_event (sent body) \<and>
        sent effs = Transcript t True # sent body @
          (if r = None then [ResponseComplete full] else [])"
    using sent_respond_effects [OF b(1)] b(2) by (simp add: sent_append)
  then show ?thesis by (intro exI)
qed

lemma cleaned_filter_speech: "cleaned (filter is_speech_effect effs) = cleaned effs"
  by (induction effs rule: cleaned.induct) auto

lemma cleaned_speak: "cleaned (fst (speak w s)) = (if s = [] then [] else [s])"
  by (simp add: speak_effects cleaned_block)

lemma cleaned_speak_list:
  "list_all (\<lambda>s. s \<noteq> []) ss \<Longrightarrow> cleaned (concat (map (\<lambda>s. fst (speak w s)) ss)) = ss"
  by (induction ss) (simp_all add: cleaned_append cleaned_speak)

lemma prefix_nonempty:
  "prefix xs ys \<Longrightarrow> list_all P ys \<Longrightarrow> list_all P xs"
  by (auto simp: prefix_def)

lemma cleaned_speak_all:
  assumes "list_all (\<lambda>s. s \<noteq> []) ss"
  shows "cleaned (fst (speak_all w ss)) = spoken w ss"
proof -
  have "list_all (\<lambda>s. s \<noteq> []) (spoken w ss)"
    using spoken_prefix [of w ss] assms by (rule prefix_nonempty)
  then show ?thesis unfolding speak_all_spoken by (rule cleaned_speak_list)
qed

lemma trimmed_nonempty: "list_all trimmed ss \<Longrightarrow> list_all (\<lambda>s. s \<noteq> []) ss"
  by (induction ss) (simp_all add: trimmed_def)

lemma respond_cleaned:
  assumes re: "respond w t = (effs, r)"
    and sg: "segment (fst (chat_stream w t)) = (during, after)"
  shows "prefix (cleaned effs) (during @ after) \<and> (r = None \<longrightarrow> cleaned effs = during @ after)"
proof -
  obtain chunks fails where cs: "chat_stream w t = (chunks, fails)"
    by (cases "chat_stream w t")
  obtain ss rem where f: "feed [] chunks = (ss, rem)" by (cases "feed [] chunks")
  from sg cs f have d: "during = ss" "after = flush rem" by (auto simp: segment_def)
  from segment_trimmed [OF sg] d have ne: "list_all (\<lambda>s. s \<noteq> []) ss"
    using trimmed_nonempty by simp
  obtain e x where co: "consume w [] [] chunks = (e, x)" by (cases "consume w [] [] chunks")
  obtain seffs sx where sa: "speak_all w ss = (seffs, sx)" by (cases "speak_all w ss")
  from consume_speak_all [OF co f sa]
  have fe: "filter is_speech_effect e = seffs"
    and xr: "x = (case sx of Some err \<Rightarrow> Inl err | None \<Rightarrow> Inr ([] @ concat chunks, rem))"
    by blast+
  have ce: "cleaned e = spoken w ss"
    using cleaned_filter_speech [of e] fe cleaned_speak_all [OF ne, of w] sa by simp
  show ?thesis
  proof (cases sx)
    case (Some err)
    with xr have "x = Inl err" by simp
    with re cs co have ef: "effs = ChatStream t # e" and rr: "r = Some err"
      by (simp_all add: respond_def)
    have "cleaned effs = spoken w ss" using ef ce by simp
    moreover have "prefix (spoken w ss) (ss @ flush rem)"
      using spoken_prefix [of w ss] by (rule prefix_prefix)
    ultimately show ?thesis using d rr by simp
  next
    case None
    with xr have x: "x = Inr (concat chunks, rem)" by simp
    have all: "spoken w ss = ss" using spoken_all [of w ss] sa None by simp
    show ?thesis
    proof (cases fails)
      case (Some err)
      with re cs co x have ef: "effs = ChatStream t # e" and rr: "r = Some err"
        by (simp_all add: respond_def)
      have "cleaned effs = ss" using ef ce all by simp
      then show ?thesis using d rr by simp
    next
      case None2: None
      obtain e2 x2 where sp: "speak w (strip rem) = (e2, x2)" by (cases "speak w (strip rem)")
      have c2: "cleaned e2 = flush rem"
        using cleaned_speak [of w "strip rem"] sp by (simp add: flush_def)
      have "cleaned effs = ss @ flush rem"
      proof (cases x2)
        case (Some err)
        with re cs co x None2 sp have "effs = ChatStream t # e @ e2"
          by (simp add: respond_def)
        then show ?thesis using ce all c2 by (simp add: cleaned_append)
      next
        case None3: None
        with re cs co x None2 sp
        have "effs = ChatStream t # e @ e2 @ [Send (ResponseComplete (concat chunks))]"
          by (simp add: respond_def)
        then show ?thesis using ce all c2 by (simp add: cleaned_append)
      qed
      then show ?thesis using d by simp
    qed
  qed
qed

subsection \<open>What the stop handler sends, and when no exception leaves it\<close>


lemma collect_realtime_sent: "collect_realtime w st = (effs1, t, st2) \<Longrightarrow> sent effs1 = []"
  by (auto simp: collect_realtime_def split: option.splits prod.splits sum.splits)

lemma stop_sent:
  assumes "on_stop_listening w st = (effs, r, st')"
  shows "(r \<noteq> None \<and> sent effs = [ListeningStopped]) \<or>
         (\<exists>t body full. list_all is_stream_event body \<and>
            sent effs = ListeningStopped # Transcript t True # body @
                          (if r = None then [ResponseComplete full] else []))"
proof -
  obtain effs1 t st2 where cr: "collect_realtime w (st\<lparr>is_listening := False\<rparr>) = (effs1, t, st2)"
    by (cases "collect_realtime w (st\<lparr>is_listening := False\<rparr>)") auto
  note s1 = collect_realtime_sent [OF cr]
  note sh = stop_shape [OF assms cr]
  have closing: "\<And>t2 effs2 r2 st3. close_turn w st2 t2 = (effs2, r2, st3) \<Longrightarrow>
      \<exists>t body full. list_all is_stream_event body \<and>
        ListeningStopped # sent effs2 = ListeningStopped # Transcript t True # body @
                          (if r2 = None then [ResponseComplete full] else [])"
  proof -
    fix t2 effs2 r2 st3
    assume "close_turn w st2 t2 = (effs2, r2, st3)"
    from close_turn_sent [OF this] obtain body full where
      "list_all is_stream_event body \<and> sent effs2 = Transcript t2 True # body @
          (if r2 = None then [ResponseComplete full] else [])" by blast
    then have "list_all is_stream_event body \<and>
        ListeningStopped # sent effs2 = ListeningStopped # Transcript t2 True # body @
                          (if r2 = None then [ResponseComplete full] else [])" by simp
    then show "\<exists>t body full. list_all is_stream_event body \<and>
        ListeningStopped # sent effs2 = ListeningStopped # Transcript t True # body @
                          (if r2 = None then [ResponseComplete full] else [])"
      by (intro exI)
  qed
  show ?thesis
  proof (cases "should_batch_fallback w (buffered_audio st) t st2")
    case False
    obtain effs2 r2 st3 where c: "close_turn w st2 t = (effs2, r2, st3)"
      by (cases "close_turn w st2 t") auto
    from sh False c have e: "effs = Send ListeningStopped # effs1 @ effs2" "r = r2" by simp_all
    then have "sent effs = ListeningStopped # sent effs2" using s1 by (simp add: sent_append)
    with closing [OF c] e(2) show ?thesis by simp
  next
    case True
    with sh obtain d where d: "buffered_audio st = Some d"
      "(case transcribe w d of
          Inl e \<Rightarrow> (effs, r, st') = (Send ListeningStopped # effs1 @ [Transcribe d], Some e, st2)
        | Inr tx \<Rightarrow> (effs, r, st') =
            (case close_turn w st2 tx of
               (effs2, r2, st3) \<Rightarrow>
                 (Send ListeningStopped # effs1 @ [Transcribe d] @ effs2, r2, st3)))"
      by blast
    show ?thesis
    proof (cases "transcribe w d")
      case (Inl e)
      with d(2) have "effs = Send ListeningStopped # effs1 @ [Transcribe d]" "r = Some e"
        by simp_all
      then have "r \<noteq> None \<and> sent effs = [ListeningStopped]" using s1 by (simp add: sent_append)
      then show ?thesis by blast
    next
      case (Inr tx)
      obtain effs2 r2 st3 where c: "close_turn w st2 tx = (effs2, r2, st3)"
        by (cases "close_turn w st2 tx") auto
      from d(2) Inr c have e: "effs = Send ListeningStopped # effs1 @ [Transcribe d] @ effs2"
        "r = r2" by simp_all
      then have "sent effs = ListeningStopped # sent effs2" using s1 by (simp add: sent_append)
      with closing [OF c] e(2) show ?thesis by simp
    qed
  qed
qed






subsection \<open>A turn without a realtime session\<close>

lemma serve_audio_no_session:
  "is_listening st \<Longrightarrow> asr_realtime_session st = None \<Longrightarrow>
     serve st (audio_msgs chunks @ rest)
       = concat (map (\<lambda>(w, audio_np). local_vad w audio_np) chunks) @
         serve (st\<lparr>audio_buffer := audio_buffer st @ map snd chunks\<rparr>) rest"
proof (induction chunks arbitrary: st)
  case Nil
  then show ?case by (simp add: audio_msgs_def)
next
  case (Cons c chunks)
  obtain w a where c: "c = (w, a)" by (cases c)
  let ?st1 = "st\<lparr>audio_buffer := audio_buffer st @ [a]\<rparr>"
  have h: "handle w st (Audio (Some a)) = (local_vad w a, None, ?st1)"
    using Cons.prems by (simp add: on_audio_def local_vad_def split: option.splits)
  have l: "is_listening ?st1" "asr_realtime_session ?st1 = None" using Cons.prems by simp_all
  have "serve st (audio_msgs (c # chunks) @ rest)
      = local_vad w a @ serve ?st1 (audio_msgs chunks @ rest)"
    using h by (simp add: audio_msgs_def c)
  also have "serve ?st1 (audio_msgs chunks @ rest)
      = concat (map (\<lambda>(w, audio_np). local_vad w audio_np) chunks) @
        serve (?st1\<lparr>audio_buffer := audio_buffer ?st1 @ map snd chunks\<rparr>) rest"
    by (rule Cons.IH [OF l])
  finally show ?case by (simp add: c)
qed

lemma start_fails:
  assumes "has_create_session w0" and "start_raises (rt w0) = Some e"
  shows "handle w0 st StartListening
     = ([CreateSession, Send ListeningStarted], None,
        \<lparr>audio_buffer = [], is_listening = True, asr_realtime_session = None\<rparr>)"
  using assms by (simp add: on_start_listening_def start_def)

lemma stop_no_session_empty:
  "on_stop_listening ws \<lparr>audio_buffer = [], is_listening = True, asr_realtime_session = None\<rparr>
     = ([Send ListeningStopped, Send (Transcript [] True), Send (ResponseComplete [])], None,
        \<lparr>audio_buffer = [], is_listening = False, asr_realtime_session = None\<rparr>)"
  by (simp add: on_stop_listening_def buffered_audio_def collect_realtime_def
      should_batch_fallback_def close_turn_def strip_def)

lemma stop_no_session_batch:
  assumes "buf \<noteq> []"
  shows "\<exists>tail. fst (on_stop_listening ws
            \<lparr>audio_buffer = buf, is_listening = True, asr_realtime_session = None\<rparr>)
     = [Send ListeningStopped, Transcribe (concat buf)] @ tail"
proof -
  let ?st = "\<lparr>audio_buffer = buf, is_listening = True, asr_realtime_session = None\<rparr>"
  let ?st1 = "?st\<lparr>is_listening := False\<rparr>"
  have cr: "collect_realtime ws ?st1 = ([], [], ?st1)" by (simp add: collect_realtime_def)
  have sb: "should_batch_fallback ws (buffered_audio ?st) [] ?st1"
    using assms by (simp add: should_batch_fallback_def buffered_audio_def strip_def)
  have ba: "buffered_audio ?st = Some (concat buf)"
    using assms by (simp add: buffered_audio_def)
  obtain effs r st' where osl: "on_stop_listening ws ?st = (effs, r, st')"
    by (cases "on_stop_listening ws ?st") auto
  from stop_shape [OF osl cr] sb ba
  have d: "(case transcribe ws (concat buf) of
          Inl e \<Rightarrow> (effs, r, st') = (Send ListeningStopped # [] @ [Transcribe (concat buf)], Some e, ?st1)
        | Inr tx \<Rightarrow> (effs, r, st') =
            (case close_turn ws ?st1 tx of
               (effs2, r2, st3) \<Rightarrow>
                 (Send ListeningStopped # [] @ [Transcribe (concat buf)] @ effs2, r2, st3)))"
    by simp
  have "\<exists>tail. effs = [Send ListeningStopped, Transcribe (concat buf)] @ tail"
  proof (cases "transcribe ws (concat buf)")
    case (Inl e)
    with d show ?thesis by simp
  next
    case (Inr tx)
    obtain effs2 r2 st3 where c: "close_turn ws ?st1 tx = (effs2, r2, st3)"
      by (cases "close_turn ws ?st1 tx") auto
    with d Inr show ?thesis by simp
  qed
  with osl show ?thesis by simp
qed

lemma serve_last:
  "\<exists>tail. serve st [(w, m)] = fst (handle w st m) @ tail"
  by (cases "handle w st m"; cases m) (auto split: option.splits)

subsection \<open>The events of a turn, message by message\<close>

lemma turn_events_append: "turn_events (a @ b) = turn_events a @ turn_events b"
  by (simp add: turn_events_def sent_append)

lemma vad_events_turn: "list_all is_vad_status (turn_events (vad_events events))"
  by (induction events) (auto simp: turn_events_def)

lemma cleanup_sent: "sent (cleanup st) = []"
  by (simp add: cleanup_def split: option.splits)

lemma cleanup_turn: "turn_events (cleanup st) = []"
  by (simp add: cleanup_def turn_events_def split: option.splits)

lemma inside_step:
  assumes "m \<noteq> StartListening" and "m \<noteq> StopListening"
  shows "list_all is_vad_status (turn_events (fst (handle w st m)))"
proof (cases m)
  case (Audio payload)
  have v: "list_all is_vad_status (turn_events (ForwardAudio a # vad_events events))" for a events
    using vad_events_turn [of events] by (simp add: turn_events_def)
  show ?thesis unfolding Audio
    using v by (auto simp: on_audio_def Let_def turn_events_def
        split: option.splits prod.splits sum.splits)
qed (use assms in \<open>simp_all add: turn_events_def\<close>)

lemma passes_step:
  assumes "m \<noteq> StartListening" and "m \<noteq> StopListening" and "passes (w, m)"
  shows "fst (snd (handle w st m)) = None"
proof (cases m)
  case (Audio payload)
  with assms(3) obtain a where "payload = Some a" by (cases payload) auto
  then show ?thesis unfolding Audio
    by (auto simp: on_audio_def Let_def split: option.splits prod.splits sum.splits)
qed (use assms in simp_all)

lemma serve_inside:
  "list_all inside_turn mids \<Longrightarrow>
     \<exists>vads st'. list_all is_vad_status vads \<and>
        (turn_events (serve st (mids @ rest)) = vads \<or>
         turn_events (serve st (mids @ rest)) = vads @ turn_events (serve st' rest)) \<and>
        (list_all passes mids \<longrightarrow>
         turn_events (serve st (mids @ rest)) = vads @ turn_events (serve st' rest))"
proof (induction mids arbitrary: st)
  case Nil
  have "list_all is_vad_status [] \<and>
        (turn_events (serve st ([] @ rest)) = [] \<or>
         turn_events (serve st ([] @ rest)) = [] @ turn_events (serve st rest)) \<and>
        (list_all passes [] \<longrightarrow>
         turn_events (serve st ([] @ rest)) = [] @ turn_events (serve st rest))" by simp
  then show ?case by (intro exI)
next
  case (Cons c mids)
  obtain w m where c: "c = (w, m)" by (cases c)
  from Cons.prems c have m: "m \<noteq> StartListening" "m \<noteq> StopListening"
    and im: "list_all inside_turn mids" by simp_all
  obtain effs r st1 where h: "handle w st m = (effs, r, st1)" by (cases "handle w st m") auto
  from inside_step [OF m, of w st] h have ve: "list_all is_vad_status (turn_events effs)" by simp
  show ?case
  proof (cases "m = Disconnect")
    case True
    then have s: "turn_events (serve st ((c # mids) @ rest)) = []"
      by (simp add: c cleanup_turn)
    have np: "\<not> list_all passes (c # mids)" using True by (simp add: c)
    have "list_all is_vad_status [] \<and>
        (turn_events (serve st ((c # mids) @ rest)) = [] \<or>
         turn_events (serve st ((c # mids) @ rest)) = [] @ turn_events (serve st rest)) \<and>
        (list_all passes (c # mids) \<longrightarrow>
         turn_events (serve st ((c # mids) @ rest)) = [] @ turn_events (serve st rest))"
      using s np by auto
    then show ?thesis by (intro exI)
  next
    case False
    show ?thesis
    proof (cases r)
      case (Some e)
      have s: "turn_events (serve st ((c # mids) @ rest)) = turn_events effs"
        using False h Some by (simp add: c turn_events_def sent_append cleanup_sent)
      have np: "\<not> list_all passes (c # mids)"
        using passes_step [OF m, of w st] h Some by (auto simp: c)
      have "list_all is_vad_status (turn_events effs) \<and>
        (turn_events (serve st ((c # mids) @ rest)) = turn_events effs \<or>
         turn_events (serve st ((c # mids) @ rest)) = turn_events effs @ turn_events (serve st rest)) \<and>
        (list_all passes (c # mids) \<longrightarrow>
         turn_events (serve st ((c # mids) @ rest)) = turn_events effs @ turn_events (serve st rest))"
        using s np ve by auto
      then show ?thesis by (intro exI)
    next
      case None
      have s: "turn_events (serve st ((c # mids) @ rest))
          = turn_events effs @ turn_events (serve st1 (mids @ rest))"
        using False h None by (simp add: c turn_events_append)
      from Cons.IH [OF im, of st1] obtain vads st' where
        v: "list_all is_vad_status vads"
          "turn_events (serve st1 (mids @ rest)) = vads \<or>
           turn_events (serve st1 (mids @ rest)) = vads @ turn_events (serve st' rest)"
          "list_all passes mids \<longrightarrow>
           turn_events (serve st1 (mids @ rest)) = vads @ turn_events (serve st' rest)"
        by blast
      have "list_all is_vad_status (turn_events effs @ vads) \<and>
        (turn_events (serve st ((c # mids) @ rest)) = turn_events effs @ vads \<or>
         turn_events (serve st ((c # mids) @ rest))
           = (turn_events effs @ vads) @ turn_events (serve st' rest)) \<and>
        (list_all passes (c # mids) \<longrightarrow>
         turn_events (serve st ((c # mids) @ rest))
           = (turn_events effs @ vads) @ turn_events (serve st' rest))"
        using s v ve by auto
      then show ?thesis by (intro exI)
    qed
  qed
qed

lemma stream_rank: "list_all is_stream_event body \<Longrightarrow>
   map rank body = replicate (length body) 4 \<and> filter (\<lambda>e. e \<noteq> Pong) body = body"
proof (induction body)
  case Nil
  then show ?case by simp
next
  case (Cons a body)
  then show ?case by (cases a) simp_all
qed

lemma sorted_replicate_between:
  "a \<le> (n::nat) \<Longrightarrow> list_all (\<lambda>x. n \<le> x) xs \<Longrightarrow> sorted xs \<Longrightarrow> sorted (a # replicate k n @ xs)"
  by (induction k) (auto simp: list_all_iff)

lemma stop_turn:
  "\<exists>closing. turn_events (serve st [(ws, StopListening)]) = ListeningStopped # closing \<and>
      sorted (map rank closing) \<and> list_all (\<lambda>e. 3 \<le> rank e) closing"
proof -
  obtain effs r st' where osl: "on_stop_listening ws st = (effs, r, st')"
    by (cases "on_stop_listening ws st") auto
  have s: "turn_events (serve st [(ws, StopListening)]) = turn_events effs"
    using osl by (cases r) (simp_all add: turn_events_def sent_append cleanup_sent)
  from stop_sent [OF osl]
  consider "sent effs = [ListeningStopped]"
    | t body full where "list_all is_stream_event body"
        "sent effs = ListeningStopped # Transcript t True # body @
                          (if r = None then [ResponseComplete full] else [])"
    by blast
  then show ?thesis
  proof cases
    case 1
    then have "turn_events (serve st [(ws, StopListening)]) = ListeningStopped # [] \<and>
      sorted (map rank []) \<and> list_all (\<lambda>e. 3 \<le> rank e) []"
      using s by (simp add: turn_events_def)
    then show ?thesis by (intro exI)
  next
    case 2
    let ?tl = "if r = None then [ResponseComplete full] else []"
    from stream_rank [OF 2(1)] have b: "map rank body = replicate (length body) 4"
      "filter (\<lambda>e. e \<noteq> Pong) body = body" by simp_all
    have b3: "list_all (\<lambda>e. 3 \<le> rank e) body"
    proof -
      have "\<forall>x \<in> set (map rank body). x = 4" unfolding b(1) by simp
      then show ?thesis by (simp add: list_all_iff)
    qed
    have t: "turn_events effs = ListeningStopped # (Transcript t True # body @ ?tl)"
      unfolding turn_events_def 2(2) using b(2) by simp
    have so: "sorted (map rank (Transcript t True # body @ ?tl))"
      using sorted_replicate_between [of 3 4 "map rank ?tl" "length body"] b(1) by simp
    have al: "list_all (\<lambda>e. 3 \<le> rank e) (Transcript t True # body @ ?tl)"
      using b3 by simp
    from s t so al have "turn_events (serve st [(ws, StopListening)])
        = ListeningStopped # (Transcript t True # body @ ?tl) \<and>
      sorted (map rank (Transcript t True # body @ ?tl)) \<and>
      list_all (\<lambda>e. 3 \<le> rank e) (Transcript t True # body @ ?tl)" by simp
    then show ?thesis by (intro exI)
  qed
qed

lemma start_turn:
  "\<exists>st'. serve st ((w0, StartListening) # rest)
     = (if has_create_session w0 then [CreateSession] else []) @
       Send ListeningStarted # serve st' rest"
proof -
  obtain effs r st' where h: "on_start_listening w0 st = (effs, r, st')"
    by (cases "on_start_listening w0 st") auto
  then have "r = None \<and> effs = (if has_create_session w0 then [CreateSession] else []) @
       [Send ListeningStarted]"
    by (auto simp: on_start_listening_def Let_def split: sum.splits if_splits)
  with h have "serve st ((w0, StartListening) # rest)
     = (if has_create_session w0 then [CreateSession] else []) @
       Send ListeningStarted # serve st' rest" by simp
  then show ?thesis by (rule exI)
qed

lemma vads_rank: "list_all is_vad_status vads \<Longrightarrow> map rank vads = replicate (length vads) 1"
proof (induction vads)
  case Nil
  then show ?case by simp
next
  case (Cons a vads)
  then show ?case by (cases a) simp_all
qed

subsection \<open>The synthesis effects of a response\<close>

lemma synthesis_is_speech: "is_synthesis e \<Longrightarrow> is_speech_effect e"
  by (cases e rule: is_synthesis.cases) simp_all

lemma synthesis_speech: "filter is_synthesis (filter is_speech_effect effs) = filter is_synthesis effs"
  by (induction effs) (auto dest: synthesis_is_speech)

lemma synthesis_speak: "filter is_synthesis (fst (speak w s)) = sentence_block w s"
  by (simp add: speak_effects synthesis_block) (simp add: sentence_block_def)

lemma synthesis_speak_list:
  "filter is_synthesis (concat (map (\<lambda>s. fst (speak w s)) ss))
     = concat (map (sentence_block w) ss)"
  by (induction ss) (simp_all add: synthesis_speak)

lemma synthesis_speak_all:
  "filter is_synthesis (fst (speak_all w ss)) = concat (map (sentence_block w) (spoken w ss))"
  unfolding speak_all_spoken by (rule synthesis_speak_list)

lemma respond_synthesis:
  assumes re: "respond w t = (effs, r)"
  shows "filter is_synthesis effs = concat (map (sentence_block w) (cleaned effs))"
proof -
  obtain chunks fails where cs: "chat_stream w t = (chunks, fails)"
    by (cases "chat_stream w t")
  obtain ss rem where f: "feed [] chunks = (ss, rem)" by (cases "feed [] chunks")
  obtain during after where sg: "segment (fst (chat_stream w t)) = (during, after)"
    by (cases "segment (fst (chat_stream w t))")
  from sg cs f have d: "during = ss" "after = flush rem" by (auto simp: segment_def)
  from segment_trimmed [OF sg] d have ne: "list_all (\<lambda>s. s \<noteq> []) ss"
    using trimmed_nonempty by simp
  obtain e x where co: "consume w [] [] chunks = (e, x)" by (cases "consume w [] [] chunks")
  obtain seffs sx where sa: "speak_all w ss = (seffs, sx)" by (cases "speak_all w ss")
  from consume_speak_all [OF co f sa]
  have fe: "filter is_speech_effect e = seffs"
    and xr: "x = (case sx of Some err \<Rightarrow> Inl err | None \<Rightarrow> Inr ([] @ concat chunks, rem))"
    by blast+
  have ce: "cleaned e = spoken w ss"
    using cleaned_filter_speech [of e] fe cleaned_speak_all [OF ne, of w] sa by simp
  have se: "filter is_synthesis e = concat (map (sentence_block w) (cleaned e))"
    using synthesis_speech [of e] fe synthesis_speak_all [of w ss] sa ce by simp
  obtain e2 x2 where sp: "speak w (strip rem) = (e2, x2)" by (cases "speak w (strip rem)")
  have c2: "cleaned e2 = (if strip rem = [] then [] else [strip rem])"
    using cleaned_speak [of w "strip rem"] sp by simp
  have s2: "filter is_synthesis e2 = concat (map (sentence_block w) (cleaned e2))"
    using synthesis_speak [of w "strip rem"] sp c2 by (simp add: sentence_block_def)
  from re cs co
  consider "effs = ChatStream t # e"
    | "effs = ChatStream t # e @ e2"
    | "effs = ChatStream t # e @ e2 @ [Send (ResponseComplete (concat chunks))]"
    using sp xr by (auto simp: respond_def split: sum.splits option.splits)
  then show ?thesis
  proof cases
    case 1
    then show ?thesis using se by simp
  next
    case 2
    then show ?thesis using se s2 by (simp add: cleaned_append)
  next
    case 3
    then show ?thesis using se s2 by (simp add: cleaned_append)
  qed
qed

section \<open>The claims\<close>

text \<open>
  Claim C5, as the specification words it, fails on the code at three places. The
  loop looks for six two-character separators only, so \<open>.\<close> followed by a tab is no
  terminator for it, where the specification's rule (\<open>spec_next_sentence\<close>) cuts. A
  separator that ends the buffer is not cut (the test \<^verbatim>\<open>earliest_idx < len(...)\<close> fails
  and the loop breaks), so \<open>Hello. \<close> yields nothing while it streams. And when the
  synthesis of a sentence raises (here the resampler on a chunk with an odd number of
  bytes), the response ends there and the sentences that follow are never handed on.
\<close>

theorem segmenter_spec_counterexample:
  "spec_next_sentence (str ''A.'' @ [9] @ str ''B. C'') = Some (str ''A.'', str ''B. C'') \<and>
   next_sentence (str ''A.'' @ [9] @ str ''B. C'')
     = Some (str ''A.'' @ [9] @ str ''B.'', str ''C'') \<and>
   spec_next_sentence (str ''Hello. '') = Some (str ''Hello.'', []) \<and>
   next_sentence (str ''Hello. '') = None \<and>
   segment [str ''Hello. ''] = ([], [str ''Hello.'']) \<and>
   segment (fst (chat_stream odd_chunk_world (str ''hello'')))
     = ([str ''Hi there.''], [str ''How are you?'']) \<and>
   snd (respond odd_chunk_world (str ''hello'')) = Some ValueError \<and>
   cleaned (fst (respond odd_chunk_world (str ''hello''))) = [str ''Hi there.'']"
  by code_simp

text \<open>
  Claim C5, amended to what the loop does. A step of the loop cuts the buffer after
  the earliest occurrence of one of the six separators (\<open>.\<close>, \<open>!\<close> or \<open>?\<close> followed
  by a space or a newline), when text follows that separator in the buffer: what is
  cut off is a piece, the sentence is the piece trimmed; the loop stops only when the
  buffer is settled (no separator in it is followed by text). So for every stream of
  chunks the whole text is the pieces, one after the other, and then the remainder;
  the sentences emitted while it streams are the trimmed pieces in that order, and
  the flush at the end of the stream is the trimmed remainder when that is not empty:
  no character that is not whitespace is lost or doubled, and every sentence is
  trimmed and not empty. The response phase of the handler hands these sentences to
  \<^verbatim>\<open>clean_for_speech\<close> in this order: all of them when no exception ends the response,
  the first ones otherwise. The fragments \<open>Hi\<close>, \<open> there.\<close>, \<open> How are you\<close>, \<open>?\<close>
  give \<open>Hi there.\<close> while streaming and \<open>How are you?\<close> at the end.
\<close>

theorem segmenter_cuts_pieces_until_settled:
  "(next_sentence buf = Some (s, rest) \<longrightarrow>
      (\<exists>p. buf = p @ rest \<and> is_piece p \<and> s = strip p \<and> rest \<noteq> [])) \<and>
   (next_sentence buf = None \<longrightarrow> settled buf) \<and>
   (segment chunks = (during, after) \<longrightarrow>
      (\<exists>pieces r. concat chunks = concat pieces @ r \<and> list_all is_piece pieces \<and>
         during = map strip pieces \<and> settled r \<and>
         after = (if strip r = [] then [] else [strip r])) \<and>
      nonspace (concat (during @ after)) = nonspace (concat chunks) \<and>
      list_all trimmed (during @ after)) \<and>
   (respond w t = (effs, res) \<and> segment (fst (chat_stream w t)) = (during', after') \<longrightarrow>
      prefix (cleaned effs) (during' @ after') \<and>
      (res = None \<longrightarrow> cleaned effs = during' @ after')) \<and>
   segment [str ''Hi'', str '' there.'', str '' How are you'', str ''?'']
     = ([str ''Hi there.''], [str ''How are you?''])"
proof (intro conjI impI)
  assume "next_sentence buf = Some (s, rest)"
  then show "\<exists>p. buf = p @ rest \<and> is_piece p \<and> s = strip p \<and> rest \<noteq> []"
    by (rule next_sentence_piece)
next
  assume n: "next_sentence buf = None"
  show "settled buf" using next_sentence_None [OF n] by (simp add: settled_iff)
next
  assume a: "segment chunks = (during, after)"
  then show "\<exists>pieces r. concat chunks = concat pieces @ r \<and> list_all is_piece pieces \<and>
         during = map strip pieces \<and> settled r \<and>
         after = (if strip r = [] then [] else [strip r])"
    by (rule segment_pieces)
  from a show "nonspace (concat (during @ after)) = nonspace (concat chunks)"
    by (rule segment_nonspace)
  from a show "list_all trimmed (during @ after)" by (rule segment_trimmed)
next
  assume a: "respond w t = (effs, res) \<and> segment (fst (chat_stream w t)) = (during', after')"
  then have re: "respond w t = (effs, res)"
    and sg: "segment (fst (chat_stream w t)) = (during', after')" by simp_all
  from respond_cleaned [OF re sg] show "prefix (cleaned effs) (during' @ after')" by simp
  assume "res = None"
  with respond_cleaned [OF re sg] show "cleaned effs = during' @ after'" by simp
next
  show "segment [str ''Hi'', str '' there.'', str '' How are you'', str ''?'']
     = ([str ''Hi there.''], [str ''How are you?''])"
    by code_simp
qed

theorem segmenter_cuts_pieces_until_settled_witness:
  "next_sentence (str ''One. Two! Thr'') = Some (str ''One.'', str ''Two! Thr'') \<and>
   (\<exists>p. str ''One. Two! Thr'' = p @ str ''Two! Thr'' \<and> is_piece p \<and> str ''One.'' = strip p) \<and>
   next_sentence (str ''Three? '') = None \<and> settled (str ''Three? '') \<and>
   segment [str ''One. Two! Thr'', str ''ee? '', str ''Four'']
     = ([str ''One.'', str ''Two!'', str ''Three?''], [str ''Four'']) \<and>
   (\<exists>pieces r. concat [str ''One. Two! Thr'', str ''ee? '', str ''Four''] = concat pieces @ r \<and>
      list_all is_piece pieces \<and>
      [str ''One.'', str ''Two!'', str ''Three?''] = map strip pieces \<and> settled r \<and>
      [str ''Four''] = (if strip r = [] then [] else [strip r])) \<and>
   snd (respond demo_world (str ''hello'')) = None \<and>
   cleaned (fst (respond demo_world (str ''hello'')))
     = [str ''Hi there.''] @ [str ''How are you?'']"
proof -
  have h1: "next_sentence (str ''One. Two! Thr'') = Some (str ''One.'', str ''Two! Thr'')"
    by code_simp
  have h2: "next_sentence (str ''Three? '') = None" by code_simp
  have h3: "segment [str ''One. Two! Thr'', str ''ee? '', str ''Four'']
     = ([str ''One.'', str ''Two!'', str ''Three?''], [str ''Four''])"
    by code_simp
  have h4: "respond demo_world (str ''hello'')
      = (fst (respond demo_world (str ''hello'')), None)"
    by code_simp
  have h5: "segment (fst (chat_stream demo_world (str ''hello'')))
      = ([str ''Hi there.''], [str ''How are you?''])"
    by code_simp
  from segmenter_cuts_pieces_until_settled
    [of "str ''One. Two! Thr''" "str ''One.''" "str ''Two! Thr''"
        "[str ''One. Two! Thr'', str ''ee? '', str ''Four'']"
        "[str ''One.'', str ''Two!'', str ''Three?'']" "[str ''Four'']"
        demo_world "str ''hello''" "fst (respond demo_world (str ''hello''))" None
        "[str ''Hi there.'']" "[str ''How are you?'']"] h1 h3 h4 h5
  have a: "(\<exists>p. str ''One. Two! Thr'' = p @ str ''Two! Thr'' \<and> is_piece p \<and>
             str ''One.'' = strip p)"
    and b: "(\<exists>pieces r. concat [str ''One. Two! Thr'', str ''ee? '', str ''Four'']
                = concat pieces @ r \<and>
      list_all is_piece pieces \<and>
      [str ''One.'', str ''Two!'', str ''Three?''] = map strip pieces \<and> settled r \<and>
      [str ''Four''] = (if strip r = [] then [] else [strip r]))"
    and c: "cleaned (fst (respond demo_world (str ''hello'')))
     = [str ''Hi there.''] @ [str ''How are you?'']"
    by blast+
  from segmenter_cuts_pieces_until_settled [of "str ''Three? ''"] h2
  have d: "settled (str ''Three? '')" by blast
  have e: "snd (respond demo_world (str ''hello'')) = None" using h4 by (metis snd_conv)
  from h1 a h2 d h3 b e c show ?thesis by (intro conjI)
qed



text \<open>
  Claim C3. When the stop-and-collect of the turn's realtime session returns a
  transcript that is not empty after trimming, no effect of the handler is a call of
  the batch transcriber, and the \<open>transcript\<close> event carries the realtime text.
\<close>

theorem realtime_transcript_skips_batch:
  assumes "asr_realtime_session st = Some s"
    and "await_stop w s 3000 = (Inr text, s')"
    and "strip text \<noteq> []"
  shows "filter is_transcribe (fst (on_stop_listening w st)) = [] \<and>
         Send (Transcript text True) \<in> set (fst (on_stop_listening w st))"
proof -
  let ?st1 = "st\<lparr>is_listening := False\<rparr>"
  let ?st2 = "?st1\<lparr>asr_realtime_session := Some s'\<rparr>"
  have cr: "collect_realtime w ?st1 = ([StopSession 3000], text, ?st2)"
    using assms(1,2) by (simp add: collect_realtime_def)
  have nb: "\<not> should_batch_fallback w (buffered_audio st) text ?st2"
    using assms(3) by (simp add: should_batch_fallback_def)
  obtain effs r st' where osl: "on_stop_listening w st = (effs, r, st')"
    by (cases "on_stop_listening w st") auto
  obtain effs2 r2 st3 where c: "close_turn w ?st2 text = (effs2, r2, st3)"
    by (cases "close_turn w ?st2 text") auto
  from stop_shape [OF osl cr] nb c
  have e: "effs = Send ListeningStopped # [StopSession 3000] @ effs2" by simp
  from close_turn_no_transcribe [of w ?st2 "text"] c
  have "filter is_transcribe effs2 = []" by simp
  moreover from close_turn_shape [OF c] have "Send (Transcript text True) \<in> set effs2"
    by auto
  ultimately show ?thesis using osl e by simp
qed

theorem realtime_transcript_skips_batch_witness:
  "asr_realtime_session listening_silence_rt = Some live_session \<and>
   await_stop hearing_world live_session 3000
     = (Inr (str ''hi''),
        live_session\<lparr>final_transcript := str ''hi'', saw_speech_started := True\<rparr>) \<and>
   strip (str ''hi'') \<noteq> [] \<and>
   filter is_transcribe (fst (on_stop_listening hearing_world listening_silence_rt)) = [] \<and>
   Send (Transcript (str ''hi'') True)
     \<in> set (fst (on_stop_listening hearing_world listening_silence_rt))"
proof -
  have h1: "asr_realtime_session listening_silence_rt = Some live_session" by code_simp
  have h2: "await_stop hearing_world live_session 3000
     = (Inr (str ''hi''),
        live_session\<lparr>final_transcript := str ''hi'', saw_speech_started := True\<rparr>)"
    by code_simp
  have h3: "strip (str ''hi'') \<noteq> []" by code_simp
  from realtime_transcript_skips_batch [OF h1 h2 h3] h1 h2 h3 show ?thesis by blast
qed

text \<open>
  Claim C10. An \<open>audio\<close> message that arrives while the connection is not listening
  does nothing: no effect (no event to the client, no call of the session, of the
  detector or of anything else), no exception, the state as it was; the connection
  goes on as if the message had not come. The payload is not even decoded.
\<close>

theorem audio_ignored_unless_listening:
  "\<not> is_listening st \<Longrightarrow>
     handle w st (Audio payload) = ([], None, st) \<and>
     serve st ((w, Audio payload) # rest) = serve st rest"
  by simp

theorem audio_ignored_unless_listening_witness:
  "\<not> is_listening accepted \<and>
   handle demo_world accepted (Audio (Some [1 / 2])) = ([], None, accepted) \<and>
   serve accepted ((demo_world, Audio (Some [1 / 2])) # [(demo_world, Ping)])
     = serve accepted [(demo_world, Ping)]"
proof -
  have h: "\<not> is_listening accepted" by (simp add: accepted_def)
  from audio_ignored_unless_listening [OF h, of demo_world "Some [1 / 2]" "[(demo_world, Ping)]"] h
  show ?thesis by blast
qed

section \<open>The closing of a turn\<close>




section \<open>The fallback when the realtime session cannot be started\<close>

text \<open>
  Claim C9, as the specification states it: when the start of the realtime session
  raises, the local detector is consulted for every audio chunk and a \<open>vad_status\<close>
  with its verdict is sent. In the one configuration that has a session factory,
  \<^verbatim>\<open>startup\<close> loads no local detector: the turn goes on, the batch transcriber is
  called on stop, and no \<open>vad_status\<close> is sent at all. Where a detector exists, an
  empty chunk is not shown to it (line 511).
\<close>

theorem no_session_no_vad_counterexample:
  "wired_by realtime_cfg no_session_world \<and>
   has_create_session no_session_world \<and>
   start_raises (rt no_session_world) = Some ProviderError \<and>
   take 4 (serve accepted [(no_session_world, StartListening),
                           (no_session_world, Audio (Some [1 / 2, - 1 / 2])),
                           (no_session_world, StopListening)])
     = [CreateSession, Send ListeningStarted, Send ListeningStopped,
        Transcribe [1 / 2, - 1 / 2]] \<and>
   filter is_vad_status (sent (serve accepted [(no_session_world, StartListening),
                           (no_session_world, Audio (Some [1 / 2, - 1 / 2])),
                           (no_session_world, StopListening)])) = [] \<and>
   has_create_session hybrid_world \<and>
   start_raises (rt hybrid_world) = Some ProviderError \<and>
   take 3 (serve accepted [(hybrid_world, StartListening),
                           (hybrid_world, Audio (Some [])),
                           (hybrid_world, StopListening)])
     = [CreateSession, Send ListeningStarted, Send ListeningStopped]"
  by code_simp

text \<open>
  Claim C9, amended. When the handler of \<open>start_listening\<close> finds a factory and the
  start of the session raises, the turn runs without a session: \<open>listening_started\<close>
  is sent; each audio chunk that decodes is buffered and, when a local detector is
  loaded and the chunk is not empty, shown to the detector, whose verdict is sent as
  a \<open>vad_status\<close> (\<open>local_vad\<close>); on \<open>stop_listening\<close> the batch transcriber is called
  on the concatenation of the buffered chunks when at least one audio message was
  received, and with none the turn is closed with the empty transcript. As
  \<^verbatim>\<open>startup\<close> wires the server, a world with a factory has no local detector.
\<close>

theorem turn_without_realtime_session:
  assumes "has_create_session w0" and "start_raises (rt w0) = Some e"
  shows "(chunks = [] \<longrightarrow>
            serve st ((w0, StartListening) # audio_msgs chunks @ [(ws, StopListening)])
              = [CreateSession, Send ListeningStarted, Send ListeningStopped,
                 Send (Transcript [] True), Send (ResponseComplete [])]) \<and>
         (chunks \<noteq> [] \<longrightarrow>
            (\<exists>tail. serve st ((w0, StartListening) # audio_msgs chunks @ [(ws, StopListening)])
              = [CreateSession, Send ListeningStarted] @
                concat (map (\<lambda>(w, audio_np). local_vad w audio_np) chunks) @
                [Send ListeningStopped, Transcribe (concat (map snd chunks))] @ tail)) \<and>
         (wired_by cfg w0 \<longrightarrow> local_vad w0 audio_np = [])"
proof (intro conjI impI)
  let ?st0 = "\<lparr>audio_buffer = [], is_listening = True, asr_realtime_session = None\<rparr>"
  have s: "serve st ((w0, StartListening) # audio_msgs chunks @ [(ws, StopListening)])
      = [CreateSession, Send ListeningStarted] @
        concat (map (\<lambda>(w, audio_np). local_vad w audio_np) chunks) @
        serve (?st0\<lparr>audio_buffer := audio_buffer ?st0 @ map snd chunks\<rparr>) [(ws, StopListening)]"
    using start_fails [OF assms, of st]
      serve_audio_no_session [of ?st0 chunks "[(ws, StopListening)]"] by simp
  {
    assume "chunks = []"
    with s show "serve st ((w0, StartListening) # audio_msgs chunks @ [(ws, StopListening)])
              = [CreateSession, Send ListeningStarted, Send ListeningStopped,
                 Send (Transcript [] True), Send (ResponseComplete [])]"
      by (simp add: stop_no_session_empty)
  }
  {
    assume ne: "chunks \<noteq> []"
    let ?st1 = "\<lparr>audio_buffer = map snd chunks, is_listening = True,
                  asr_realtime_session = None\<rparr>"
    from ne have "map snd chunks \<noteq> []" by simp
    from stop_no_session_batch [OF this, of ws] obtain t1 where
      t1: "fst (on_stop_listening ws ?st1)
            = [Send ListeningStopped, Transcribe (concat (map snd chunks))] @ t1" by blast
    from serve_last [of ?st1 ws StopListening] obtain t2 where
      t2: "serve ?st1 [(ws, StopListening)] = fst (on_stop_listening ws ?st1) @ t2" by auto
    have "serve st ((w0, StartListening) # audio_msgs chunks @ [(ws, StopListening)])
              = [CreateSession, Send ListeningStarted] @
                concat (map (\<lambda>(w, audio_np). local_vad w audio_np) chunks) @
                [Send ListeningStopped, Transcribe (concat (map snd chunks))] @ (t1 @ t2)"
      using s t1 t2 by simp
    then show "\<exists>tail. serve st ((w0, StartListening) # audio_msgs chunks @ [(ws, StopListening)])
              = [CreateSession, Send ListeningStarted] @
                concat (map (\<lambda>(w, audio_np). local_vad w audio_np) chunks) @
                [Send ListeningStopped, Transcribe (concat (map snd chunks))] @ tail"
      by (rule exI)
  }
  {
    assume "wired_by cfg w0"
    with assms(1) show "local_vad w0 audio_np = []"
      by (auto simp: wired_by_def startup_has_create_session_def startup_loads_vad_def
          local_vad_def split: option.splits)
  }
qed

theorem turn_without_realtime_session_witness:
  "has_create_session hybrid_world \<and>
   start_raises (rt hybrid_world) = Some ProviderError \<and>
   (\<exists>tail. serve accepted [(hybrid_world, StartListening),
                            (hybrid_world, Audio (Some [1 / 2, - 1 / 2])),
                            (hybrid_world, StopListening)]
      = [CreateSession, Send ListeningStarted, IsSpeech [1 / 2, - 1 / 2],
         Send (VadStatus True None), Send ListeningStopped,
         Transcribe [1 / 2, - 1 / 2]] @ tail) \<and>
   serve accepted [(hybrid_world, StartListening), (hybrid_world, StopListening)]
      = [CreateSession, Send ListeningStarted, Send ListeningStopped,
         Send (Transcript [] True), Send (ResponseComplete [])] \<and>
   wired_by realtime_cfg no_session_world \<and>
   local_vad no_session_world [1 / 2] = []"
proof -
  have h: "has_create_session hybrid_world"
    "start_raises (rt hybrid_world) = Some ProviderError"
    "wired_by realtime_cfg no_session_world"
    "has_create_session no_session_world"
    "start_raises (rt no_session_world) = Some ProviderError"
    by code_simp+
  have l: "local_vad hybrid_world [1 / 2, - 1 / 2]
      = [IsSpeech [1 / 2, - 1 / 2], Send (VadStatus True None)]"
    by (simp add: local_vad_def hybrid_world_def)
  from turn_without_realtime_session [OF h(1,2),
      of "[(hybrid_world, [1 / 2, - 1 / 2])]" accepted hybrid_world] l
  have a: "\<exists>tail. serve accepted [(hybrid_world, StartListening),
                            (hybrid_world, Audio (Some [1 / 2, - 1 / 2])),
                            (hybrid_world, StopListening)]
      = [CreateSession, Send ListeningStarted, IsSpeech [1 / 2, - 1 / 2],
         Send (VadStatus True None), Send ListeningStopped,
         Transcribe [1 / 2, - 1 / 2]] @ tail"
    by (simp add: audio_msgs_def)
  from turn_without_realtime_session [OF h(1,2), of "[]" accepted hybrid_world]
  have b: "serve accepted [(hybrid_world, StartListening), (hybrid_world, StopListening)]
      = [CreateSession, Send ListeningStarted, Send ListeningStopped,
         Send (Transcript [] True), Send (ResponseComplete [])]"
    by (simp add: audio_msgs_def)
  from turn_without_realtime_session [OF h(4,5), of _ _ _ realtime_cfg "[1 / 2]"] h(3)
  have c: "local_vad no_session_world [1 / 2] = []" by blast
  from h a b c show ?thesis by blast
qed

section \<open>The order of the events of a turn\<close>

text \<open>
  Claim C7. A turn is a \<open>start_listening\<close>, then any messages other than
  \<open>start_listening\<close> and \<open>stop_listening\<close>, then a \<open>stop_listening\<close>, each handled in
  whatever state the outside is in. The events sent during the turn, the \<open>pong\<close>
  answers apart, are in the order of the specification (their ranks never decrease):
  \<open>listening_started\<close> first, then the \<open>vad_status\<close> events, then
  \<open>listening_stopped\<close>, then the \<open>transcript\<close>, then the \<open>response_chunk\<close> and
  \<open>audio_chunk\<close> events, then \<open>response_complete\<close>. The first event is
  \<open>listening_started\<close>, and when no message inside the turn ends the connection the
  events are \<open>listening_started\<close>, \<open>vad_status\<close> events, \<open>listening_stopped\<close>, and
  then events from the \<open>transcript\<close> on.
\<close>

theorem turn_event_order:
  assumes "list_all inside_turn mids"
  shows "sorted (map rank (turn_events
            (serve st ((w0, StartListening) # mids @ [(ws, StopListening)])))) \<and>
         take 1 (turn_events (serve st ((w0, StartListening) # mids @ [(ws, StopListening)])))
           = [ListeningStarted] \<and>
         (list_all passes mids \<longrightarrow>
            (\<exists>vads closing.
               list_all is_vad_status vads \<and> list_all (\<lambda>e. 3 \<le> rank e) closing \<and>
               turn_events (serve st ((w0, StartListening) # mids @ [(ws, StopListening)]))
                 = ListeningStarted # vads @ ListeningStopped # closing))"
proof -
  let ?run = "serve st ((w0, StartListening) # mids @ [(ws, StopListening)])"
  from start_turn [of st w0 "mids @ [(ws, StopListening)]"] obtain st1 where
    "?run = (if has_create_session w0 then [CreateSession] else []) @
       Send ListeningStarted # serve st1 (mids @ [(ws, StopListening)])" by blast
  then have r: "turn_events ?run
      = ListeningStarted # turn_events (serve st1 (mids @ [(ws, StopListening)]))"
    by (simp add: turn_events_def sent_append)
  from serve_inside [OF assms, of st1 "[(ws, StopListening)]"] obtain vads st2 where
    v: "list_all is_vad_status vads"
       "turn_events (serve st1 (mids @ [(ws, StopListening)])) = vads \<or>
        turn_events (serve st1 (mids @ [(ws, StopListening)]))
          = vads @ turn_events (serve st2 [(ws, StopListening)])"
       "list_all passes mids \<longrightarrow>
        turn_events (serve st1 (mids @ [(ws, StopListening)]))
          = vads @ turn_events (serve st2 [(ws, StopListening)])"
    by blast
  from stop_turn [of st2 ws] obtain closing where
    c: "turn_events (serve st2 [(ws, StopListening)]) = ListeningStopped # closing"
       "sorted (map rank closing)" "list_all (\<lambda>e. 3 \<le> rank e) closing" by blast
  note vr = vads_rank [OF v(1)]
  have c2: "list_all (\<lambda>x. 1 \<le> x) (map rank (ListeningStopped # closing))"
    using c(3) by (auto simp: list_all_iff)
  have c3: "sorted (map rank (ListeningStopped # closing))"
    using c(2,3) by (auto simp: list_all_iff)
  have s1: "sorted (map rank (ListeningStarted # vads))"
    using sorted_replicate_between [of 0 1 "[]" "length vads"] vr by simp
  have s2: "sorted (map rank (ListeningStarted # vads @ ListeningStopped # closing))"
    using sorted_replicate_between [of 0 1 "map rank (ListeningStopped # closing)" "length vads"]
      vr c2 c3 by simp
  have a: "sorted (map rank (turn_events ?run))"
    using r v(2) c(1) s1 s2 by auto
  have b: "take 1 (turn_events ?run) = [ListeningStarted]" using r by simp
  have d: "list_all passes mids \<longrightarrow>
            (\<exists>vads closing.
               list_all is_vad_status vads \<and> list_all (\<lambda>e. 3 \<le> rank e) closing \<and>
               turn_events ?run = ListeningStarted # vads @ ListeningStopped # closing)"
  proof
    assume "list_all passes mids"
    with v(3) r c(1) have "turn_events ?run = ListeningStarted # vads @ ListeningStopped # closing"
      by simp
    with v(1) c(3) have "list_all is_vad_status vads \<and> list_all (\<lambda>e. 3 \<le> rank e) closing \<and>
               turn_events ?run = ListeningStarted # vads @ ListeningStopped # closing" by simp
    then show "\<exists>vads closing.
               list_all is_vad_status vads \<and> list_all (\<lambda>e. 3 \<le> rank e) closing \<and>
               turn_events ?run = ListeningStarted # vads @ ListeningStopped # closing"
      by (intro exI)
  qed
  from a b d show ?thesis by blast
qed

theorem turn_event_order_witness:
  "list_all inside_turn [(demo_world, Audio (Some [1 / 2, - 1 / 2])), (demo_world, Ping)] \<and>
   list_all passes [(demo_world, Audio (Some [1 / 2, - 1 / 2])), (demo_world, Ping)] \<and>
   sorted (map rank (turn_events (serve accepted
     [(demo_world, StartListening), (demo_world, Audio (Some [1 / 2, - 1 / 2])),
      (demo_world, Ping), (demo_world, StopListening)]))) \<and>
   turn_events (serve accepted
     [(demo_world, StartListening), (demo_world, Audio (Some [1 / 2, - 1 / 2])),
      (demo_world, Ping), (demo_world, StopListening)])
     = [ListeningStarted, VadStatus True None, ListeningStopped,
        Transcript (str ''hello'') True, ResponseChunk (str ''Hi''),
        ResponseChunk (str '' there.''), ResponseChunk (str '' How are you''),
        AudioChunk [0, 0, 10, 0] 16000, AudioChunk [30, 0, 30, 0] 16000,
        ResponseChunk (str ''?''),
        AudioChunk [0, 0, 10, 0] 16000, AudioChunk [30, 0, 30, 0] 16000,
        ResponseComplete (str ''Hi there. How are you?'')]"
proof -
  have i: "list_all inside_turn [(demo_world, Audio (Some [1 / 2, - 1 / 2])), (demo_world, Ping)]"
    by simp
  have p: "list_all passes [(demo_world, Audio (Some [1 / 2, - 1 / 2])), (demo_world, Ping)]"
    by simp
  have e: "turn_events (serve accepted
     [(demo_world, StartListening), (demo_world, Audio (Some [1 / 2, - 1 / 2])),
      (demo_world, Ping), (demo_world, StopListening)])
     = [ListeningStarted, VadStatus True None, ListeningStopped,
        Transcript (str ''hello'') True, ResponseChunk (str ''Hi''),
        ResponseChunk (str '' there.''), ResponseChunk (str '' How are you''),
        AudioChunk [0, 0, 10, 0] 16000, AudioChunk [30, 0, 30, 0] 16000,
        ResponseChunk (str ''?''),
        AudioChunk [0, 0, 10, 0] 16000, AudioChunk [30, 0, 30, 0] 16000,
        ResponseComplete (str ''Hi there. How are you?'')]"
    by code_simp
  from turn_event_order [OF i, of accepted demo_world demo_world]
  have s: "sorted (map rank (turn_events (serve accepted
     [(demo_world, StartListening), (demo_world, Audio (Some [1 / 2, - 1 / 2])),
      (demo_world, Ping), (demo_world, StopListening)])))" by simp
  from i p s e show ?thesis by blast
qed

section \<open>The order of the audio of a response\<close>

text \<open>
  Claim C6. The synthesis effects of the response phase (the calls of the synthesizer
  and the \<open>audio_chunk\<close> events, in program order) are the blocks of the sentences
  handed to synthesis, one whole block after the other in the order of the
  sentences: the block of a sentence is the call of the synthesizer on its cleaned
  text followed by the \<open>audio_chunk\<close> events of that synthesis, up to its end or to
  the chunk at which the resampler raises. So every \<open>audio_chunk\<close> of a sentence is
  sent before the synthesis of the next sentence begins. The sentences are the first
  sentences of the segmentation of the response, and all of them when no exception
  ends the response; a synthesis that is abandoned on an exception is the last one.
\<close>

theorem sentences_synthesized_one_after_the_other:
  assumes "respond w t = (effs, r)"
    and "segment (fst (chat_stream w t)) = (during, after)"
  shows "filter is_synthesis effs = concat (map (sentence_block w) (cleaned effs)) \<and>
         prefix (cleaned effs) (during @ after) \<and>
         (r = None \<longrightarrow>
            filter is_synthesis effs = concat (map (sentence_block w) (during @ after)))"
  using respond_synthesis [OF assms(1)] respond_cleaned [OF assms] by simp

theorem sentences_synthesized_one_after_the_other_witness:
  "segment (fst (chat_stream demo_world (str ''hello'')))
     = ([str ''Hi there.''], [str ''How are you?'']) \<and>
   snd (respond demo_world (str ''hello'')) = None \<and>
   filter is_synthesis (fst (respond demo_world (str ''hello'')))
     = concat (map (sentence_block demo_world) [str ''Hi there.'', str ''How are you?'']) \<and>
   concat (map (sentence_block demo_world) [str ''Hi there.'', str ''How are you?''])
     = [Synthesize (str ''Hi there.''), Send (AudioChunk [0, 0, 10, 0] 16000),
        Send (AudioChunk [30, 0, 30, 0] 16000),
        Synthesize (str ''How are you?''), Send (AudioChunk [0, 0, 10, 0] 16000),
        Send (AudioChunk [30, 0, 30, 0] 16000)] \<and>
   respond odd_chunk_world (str ''hello'')
     = ([ChatStream (str ''hello''), Send (ResponseChunk (str ''Hi'')),
         Send (ResponseChunk (str '' there.'')), Send (ResponseChunk (str '' How are you'')),
         Clean (str ''Hi there.''), Synthesize (str ''Hi there.''),
         Send (AudioChunk [0, 0] 16000)], Some ValueError)"
proof -
  have sg: "segment (fst (chat_stream demo_world (str ''hello'')))
      = ([str ''Hi there.''], [str ''How are you?''])" by code_simp
  have rn: "snd (respond demo_world (str ''hello'')) = None" by code_simp
  have g: "respond demo_world (str ''hello'')
      = (fst (respond demo_world (str ''hello'')), snd (respond demo_world (str ''hello'')))"
    by simp
  have b: "concat (map (sentence_block demo_world) [str ''Hi there.'', str ''How are you?''])
     = [Synthesize (str ''Hi there.''), Send (AudioChunk [0, 0, 10, 0] 16000),
        Send (AudioChunk [30, 0, 30, 0] 16000),
        Synthesize (str ''How are you?''), Send (AudioChunk [0, 0, 10, 0] 16000),
        Send (AudioChunk [30, 0, 30, 0] 16000)]" by code_simp
  have o: "respond odd_chunk_world (str ''hello'')
     = ([ChatStream (str ''hello''), Send (ResponseChunk (str ''Hi'')),
         Send (ResponseChunk (str '' there.'')), Send (ResponseChunk (str '' How are you'')),
         Clean (str ''Hi there.''), Synthesize (str ''Hi there.''),
         Send (AudioChunk [0, 0] 16000)], Some ValueError)" by code_simp
  from sentences_synthesized_one_after_the_other [OF g sg]
  have "snd (respond demo_world (str ''hello'')) = None \<longrightarrow>
      filter is_synthesis (fst (respond demo_world (str ''hello'')))
        = concat (map (sentence_block demo_world)
            ([str ''Hi there.''] @ [str ''How are you?'']))"
    by blast
  with rn have f: "filter is_synthesis (fst (respond demo_world (str ''hello'')))
     = concat (map (sentence_block demo_world) [str ''Hi there.'', str ''How are you?''])"
    by simp
  from sg rn f b o show ?thesis by blast
qed

end
